theory Spec2Isabelle
  imports Complex_Main "HOL-Library.Sublist"
begin

section \<open>JavaScript strings and character classes\<close>

text \<open>
  A string of the program is a list of characters. A character stands for one UTF-16 code
  unit below 256, so the classes below are the regular-expression classes of JavaScript cut
  down to that range: \<open>\s\<close> (the set \<open>String.prototype.trim\<close> strips as well) is
  tab, line feed, vertical tab, form feed, carriage return, space and no-break space;
  \<open>\w\<close> is \<open>[A-Za-z0-9_]\<close>.
\<close>

definition is_ws :: "char \<Rightarrow> bool" where
  "is_ws c = (c \<in> {CHR 0x09, CHR 0x0A, CHR 0x0B, CHR 0x0C, CHR 0x0D, CHR '' '', CHR 0xA0})"

definition lower_letters :: string where
  "lower_letters = ''abcdefghijklmnopqrstuvwxyz''"

definition upper_letters :: string where
  "upper_letters = ''ABCDEFGHIJKLMNOPQRSTUVWXYZ''"

definition is_lower :: "char \<Rightarrow> bool" where
  "is_lower c = (c \<in> set lower_letters)"

definition is_word :: "char \<Rightarrow> bool" where
  "is_word c = (c \<in> set lower_letters \<or> c \<in> set upper_letters \<or> c \<in> set ''0123456789_'')"

text \<open>
  \<open>toUpperCase\<close> on one character. The program calls it on ASCII letters only, and the
  case-insensitive flag \<open>i\<close> compares characters after the same mapping (a code unit
  above 127 never folds onto an ASCII one).
\<close>

definition toUpperCase :: "char \<Rightarrow> char" where
  "toUpperCase c = (case map_of (zip lower_letters upper_letters) c of Some u \<Rightarrow> u | None \<Rightarrow> c)"

definition trim :: "string \<Rightarrow> string" where
  "trim s = rev (dropWhile is_ws (rev (dropWhile is_ws s)))"

definition dquote :: char where
  "dquote = CHR 0x22"

section \<open>JavaScript numbers\<close>

text \<open>
  JavaScript numbers, as far as the audio path needs them. A finite number is the real
  number it denotes. Every arithmetic operation rounds its exact result to the nearest
  binary64 value, ties to even, and overflows to an infinity (\<open>to_double\<close>); an element
  of a \<open>Float32Array\<close> holds a number rounded once more, to binary32 (\<open>fround\<close>). The
  infinities and NaN are values of their own and go through the operations as IEEE 754 has
  it. The sign of zero is not modelled.
\<close>

datatype number = Fin real | PInf | NInf | NaN

text \<open>The integer nearest to \<open>y\<close>, the even one of the two when \<open>y\<close> lies half-way.\<close>

definition nearest_even :: "real \<Rightarrow> int" where
  "nearest_even y =
     (if y - of_int \<lfloor>y\<rfloor> < 1/2 then \<lfloor>y\<rfloor>
      else if 1/2 < y - of_int \<lfloor>y\<rfloor> then \<lfloor>y\<rfloor> + 1
      else if even \<lfloor>y\<rfloor> then \<lfloor>y\<rfloor> else \<lfloor>y\<rfloor> + 1)"

definition two_to :: "int \<Rightarrow> real" where
  "two_to k = 2 powr of_int k"

text \<open>
  The spacing of the values of a binary format around \<open>x\<close>: with \<open>p\<close> significant bits
  it is \<^verbatim>\<open>2^(e-p+1)\<close>, where \<open>e\<close> is the exponent of \<open>x\<close>, \<^verbatim>\<open>2^e <= |x| < 2^(e+1)\<close>;
  below the least normal exponent \<open>emin\<close> the values are subnormal and keep the spacing
  of \<open>emin\<close>. \<open>round_to\<close> takes \<open>x\<close> to the nearest multiple of that spacing.
\<close>

definition quantum :: "nat \<Rightarrow> int \<Rightarrow> real \<Rightarrow> real" where
  "quantum p emin x = two_to (max \<lfloor>log 2 \<bar>x\<bar>\<rfloor> emin - int p + 1)"

definition round_to :: "nat \<Rightarrow> int \<Rightarrow> real \<Rightarrow> real" where
  "round_to p emin x =
     (if x = 0 then 0 else of_int (nearest_even (x / quantum p emin x)) * quantum p emin x)"

text \<open>A rounded value of magnitude \<^verbatim>\<open>2^(emax+1)\<close> or more is an infinity.\<close>

definition to_format :: "nat \<Rightarrow> int \<Rightarrow> int \<Rightarrow> real \<Rightarrow> number" where
  "to_format p emin emax x =
     (if two_to (emax + 1) \<le> \<bar>round_to p emin x\<bar>
      then (if 0 < x then PInf else NInf)
      else Fin (round_to p emin x))"

definition to_double :: "real \<Rightarrow> number" where
  "to_double x = to_format 53 (- 1022) 1023 x"

definition to_float32 :: "real \<Rightarrow> number" where
  "to_float32 x = to_format 24 (- 126) 127 x"

text \<open>The value that an element of a \<open>Float32Array\<close> holds after \<open>x\<close> is stored in it.\<close>

fun fround :: "number \<Rightarrow> number" where
  "fround (Fin a) = to_float32 a"
| "fround x = x"

definition isFinite :: "number \<Rightarrow> bool" where
  "isFinite x = (case x of Fin a \<Rightarrow> True | _ \<Rightarrow> False)"

definition inf_of_sign :: "real \<Rightarrow> number" where
  "inf_of_sign a = (if a = 0 then NaN else if 0 < a then PInf else NInf)"

fun n_abs :: "number \<Rightarrow> number" where
  "n_abs (Fin a) = Fin \<bar>a\<bar>"
| "n_abs PInf = PInf"
| "n_abs NInf = PInf"
| "n_abs NaN = NaN"

text \<open>\<open>x > y\<close>: false as soon as one side is NaN.\<close>

fun n_greater :: "number \<Rightarrow> number \<Rightarrow> bool" where
  "n_greater (Fin a) (Fin b) = (a > b)"
| "n_greater (Fin a) NInf = True"
| "n_greater PInf (Fin b) = True"
| "n_greater PInf NInf = True"
| "n_greater x y = False"

fun n_plus :: "number \<Rightarrow> number \<Rightarrow> number" where
  "n_plus (Fin a) (Fin b) = to_double (a + b)"
| "n_plus NaN y = NaN"
| "n_plus x NaN = NaN"
| "n_plus PInf NInf = NaN"
| "n_plus NInf PInf = NaN"
| "n_plus PInf y = PInf"
| "n_plus x PInf = PInf"
| "n_plus NInf y = NInf"
| "n_plus x NInf = NInf"

fun n_times :: "number \<Rightarrow> number \<Rightarrow> number" where
  "n_times (Fin a) (Fin b) = to_double (a * b)"
| "n_times NaN y = NaN"
| "n_times x NaN = NaN"
| "n_times (Fin a) PInf = inf_of_sign a"
| "n_times (Fin a) NInf = inf_of_sign (- a)"
| "n_times PInf (Fin b) = inf_of_sign b"
| "n_times NInf (Fin b) = inf_of_sign (- b)"
| "n_times PInf PInf = PInf"
| "n_times PInf NInf = NInf"
| "n_times NInf PInf = NInf"
| "n_times NInf NInf = PInf"

fun n_divide :: "number \<Rightarrow> number \<Rightarrow> number" where
  "n_divide (Fin a) (Fin b) = (if b = 0 then inf_of_sign a else to_double (a / b))"
| "n_divide NaN y = NaN"
| "n_divide x NaN = NaN"
| "n_divide (Fin a) PInf = Fin 0"
| "n_divide (Fin a) NInf = Fin 0"
| "n_divide PInf (Fin b) = (if 0 \<le> b then PInf else NInf)"
| "n_divide NInf (Fin b) = (if 0 \<le> b then NInf else PInf)"
| "n_divide x y = NaN"

fun n_sqrt :: "number \<Rightarrow> number" where
  "n_sqrt (Fin a) = (if a < 0 then NaN else to_double (sqrt a))"
| "n_sqrt PInf = PInf"
| "n_sqrt NInf = NaN"
| "n_sqrt NaN = NaN"

section \<open>Regular-expression scanning\<close>

text \<open>
  A matcher answers, for one start position, the length of the match the pattern finds
  there: it sees the character before the position (for \<open>\b\<close>) and the rest of the
  string. \<open>segs\<close> is the loop shared by \<open>replace\<close> and \<open>matchAll\<close> on a global
  pattern: try the current position; on a match emit it with its offset and go on behind
  it, otherwise keep one character and move on. Every pattern of the program consumes at
  least one character, so the empty-match rule of the language is never needed and a
  length outside \<open>1 .. length s\<close> counts as no match.
\<close>

type_synonym matcher = "char option \<Rightarrow> string \<Rightarrow> nat option"

datatype seg = Keep char | Hit nat "char option" string

definition match_len :: "matcher \<Rightarrow> char option \<Rightarrow> string \<Rightarrow> nat" where
  "match_len M prev s = (case M prev s of None \<Rightarrow> 0 | Some n \<Rightarrow> if n \<le> length s then n else 0)"

function segs :: "matcher \<Rightarrow> nat \<Rightarrow> char option \<Rightarrow> string \<Rightarrow> seg list" where
  "segs M i prev s =
     (if 0 < match_len M prev s
      then Hit i prev (take (match_len M prev s) s)
             # segs M (i + match_len M prev s)
                 (Some (last (take (match_len M prev s) s))) (drop (match_len M prev s) s)
      else (case s of [] \<Rightarrow> [] | c # cs \<Rightarrow> Keep c # segs M (Suc i) (Some c) cs))"
  by pat_completeness auto
termination
  by (relation "measure (\<lambda>(M, i, prev, s). length s)") (auto simp: match_len_def split: option.splits)

declare segs.simps [simp del]

text \<open>\<open>s.matchAll(re)\<close>: the matches with their \<open>index\<close>, in order.\<close>

definition matchAll :: "matcher \<Rightarrow> string \<Rightarrow> (nat \<times> string) list" where
  "matchAll M s =
     concat (map (\<lambda>g. case g of Keep c \<Rightarrow> [] | Hit i b m \<Rightarrow> [(i, m)]) (segs M 0 None s))"

text \<open>
  \<open>s.replace(re, f)\<close> with a global pattern: the callback gets the offset of the match,
  the character before it in the scanned string (none at offset 0) and the matched text.
\<close>

definition replace_cb ::
  "matcher \<Rightarrow> (nat \<Rightarrow> char option \<Rightarrow> string \<Rightarrow> string) \<Rightarrow> string \<Rightarrow> string" where
  "replace_cb M f s =
     concat (map (\<lambda>g. case g of Keep c \<Rightarrow> [c] | Hit i b m \<Rightarrow> f i b m) (segs M 0 None s))"

text \<open>A callback that also pushes Changes: the pushes of all matches, in match order.\<close>

definition pushes_cb :: "matcher \<Rightarrow> (nat \<Rightarrow> char option \<Rightarrow> string \<Rightarrow> 'a list) \<Rightarrow> string \<Rightarrow> 'a list" where
  "pushes_cb M f s =
     concat (map (\<lambda>g. case g of Keep c \<Rightarrow> [] | Hit i b m \<Rightarrow> f i b m) (segs M 0 None s))"

subsection \<open>Pattern pieces\<close>

text \<open>\<open>\b\<close>: exactly one of the characters on the two sides is a word character.\<close>

definition word_boundary :: "char option \<Rightarrow> string \<Rightarrow> bool" where
  "word_boundary prev s =
     ((case prev of None \<Rightarrow> False | Some c \<Rightarrow> is_word c)
        \<noteq> (case s of [] \<Rightarrow> False | c # cs \<Rightarrow> is_word c))"

text \<open>Literal text under the flag \<open>i\<close>: \<open>p\<close> is a prefix of \<open>s\<close> up to ASCII case.\<close>

definition lit_ci :: "string \<Rightarrow> string \<Rightarrow> bool" where
  "lit_ci p s = (length p \<le> length s \<and> map toUpperCase (take (length p) s) = map toUpperCase p)"

definition orelse :: "nat option \<Rightarrow> nat option \<Rightarrow> nat option" where
  "orelse a b = (case a of Some n \<Rightarrow> Some n | None \<Rightarrow> b)"

text \<open>\<open>xy+\<close> under \<open>i\<close>, as in \<open>um+\<close>: the greedy \<open>+\<close> takes every following \<open>y\<close>.\<close>

definition letter_plus :: "char \<Rightarrow> char \<Rightarrow> string \<Rightarrow> nat option" where
  "letter_plus x y s =
     (case s of
        a # b # r \<Rightarrow>
          if toUpperCase a = toUpperCase x \<and> toUpperCase b = toUpperCase y
          then Some (2 + length (takeWhile (\<lambda>c. toUpperCase c = toUpperCase y) r))
          else None
      | _ \<Rightarrow> None)"

text \<open>
  \<open>p,?\s\<close> under \<open>i\<close>: the phrase, an optional comma, one whitespace character. Giving
  the comma back cannot help, the comma not being whitespace.
\<close>

definition phrase_comma_ws :: "string \<Rightarrow> string \<Rightarrow> nat option" where
  "phrase_comma_ws p s =
     (if lit_ci p s
      then (case drop (length p) s of
              [] \<Rightarrow> None
            | c # r \<Rightarrow>
                if c = CHR '',''
                then (case r of [] \<Rightarrow> None | w # r' \<Rightarrow> if is_ws w then Some (length p + 2) else None)
                else if is_ws c then Some (length p + 1) else None)
      else None)"

subsection \<open>The patterns of the correction engine\<close>

text \<open>\<^verbatim>\<open>/\b(um+|uh+|er+|ah+|like,?\s)/gi\<close>\<close>

definition filler_hesitation :: matcher where
  "filler_hesitation prev s =
     (if word_boundary prev s
      then orelse (letter_plus CHR ''u'' CHR ''m'' s)
          (orelse (letter_plus CHR ''u'' CHR ''h'' s)
          (orelse (letter_plus CHR ''e'' CHR ''r'' s)
          (orelse (letter_plus CHR ''a'' CHR ''h'' s)
                  (phrase_comma_ws ''like'' s))))
      else None)"

text \<open>\<^verbatim>\<open>/\b(you know,?\s)/gi\<close> and the four patterns of the same shape.\<close>

definition filler_phrase :: "string \<Rightarrow> matcher" where
  "filler_phrase p prev s = (if word_boundary prev s then phrase_comma_ws p s else None)"

text \<open>\<^verbatim>\<open>/\b(sort of|kind of)\s/gi\<close>\<close>

definition filler_sort_of :: matcher where
  "filler_sort_of prev s =
     (if word_boundary prev s \<and> (lit_ci ''sort of'' s \<or> lit_ci ''kind of'' s)
      then (case drop 7 s of [] \<Rightarrow> None | w # r \<Rightarrow> if is_ws w then Some 8 else None)
      else None)"

definition FILLER_PATTERNS :: "matcher list" where
  "FILLER_PATTERNS =
     [filler_hesitation,
      filler_phrase ''you know'',
      filler_phrase ''basically'',
      filler_phrase ''literally'',
      filler_phrase ''actually'',
      filler_sort_of,
      filler_phrase ''I mean'']"

definition BOUNDARY_TRIGGERS :: "string list" where
  "BOUNDARY_TRIGGERS =
     [''however'', ''therefore'', ''moreover'', ''furthermore'', ''additionally'',
      ''consequently'', ''nevertheless'', ''meanwhile'', ''subsequently'',
      ''in addition'', ''as a result'', ''on the other hand'', ''in conclusion'',
      ''first'', ''second'', ''third'', ''finally'', ''next'', ''then'', ''also'',
      ''but'', ''and then'', ''so then'', ''after that'']"

text \<open>\<^verbatim>\<open>/\s{2,}/g\<close>: a greedy run of at least two whitespace characters.\<close>

definition multi_space :: matcher where
  "multi_space prev s =
     (if 2 \<le> length (takeWhile is_ws s) then Some (length (takeWhile is_ws s)) else None)"

text \<open>
  \<^verbatim>\<open>new RegExp(`(\\s)(${trigger})\\s`, 'gi')\<close>: one whitespace character, the trigger,
  one whitespace character.
\<close>

definition trigger_pattern :: "string \<Rightarrow> matcher" where
  "trigger_pattern trigger prev s =
     (case s of
        [] \<Rightarrow> None
      | w # r \<Rightarrow>
          if is_ws w \<and> lit_ci trigger r
          then (case drop (length trigger) r of
                  [] \<Rightarrow> None
                | w' # r' \<Rightarrow> if is_ws w' then Some (length trigger + 2) else None)
          else None)"

text \<open>
  \<^verbatim>\<open>/\.\s+([a-z])/g\<close>: a period, the whole run of whitespace behind it (a shorter run
  would leave whitespace where the letter must stand), one lower-case letter.
\<close>

definition period_lower :: matcher where
  "period_lower prev s =
     (case s of
        [] \<Rightarrow> None
      | c # r \<Rightarrow>
          if c = CHR ''.'' \<and> 1 \<le> length (takeWhile is_ws r)
          then (case dropWhile is_ws r of
                  [] \<Rightarrow> None
                | l # r' \<Rightarrow> if is_lower l then Some (length (takeWhile is_ws r) + 2) else None)
          else None)"

text \<open>\<^verbatim>\<open>/\bi\b/g\<close> (case-sensitive).\<close>

definition standalone_i :: matcher where
  "standalone_i prev s =
     (case s of
        [] \<Rightarrow> None
      | c # r \<Rightarrow>
          if word_boundary prev s \<and> c = CHR ''i'' \<and> word_boundary (Some c) r
          then Some 1 else None)"

text \<open>\<^verbatim>\<open>/\bgonna\b/gi\<close> and its two siblings: a whole word under \<open>i\<close>.\<close>

definition whole_word :: "string \<Rightarrow> matcher" where
  "whole_word w prev s =
     (if word_boundary prev s \<and> lit_ci w s
           \<and> word_boundary (Some (last (take (length w) s))) (drop (length w) s)
      then Some (length w) else None)"

text \<open>
  \<^verbatim>\<open>/\b(\w+)\s+\1\b/gi\<close>: the whole run of word characters, the whole run of whitespace
  behind it, the first run again up to case, a word boundary. Neither run can be taken
  shorter: the next piece would have to start inside the run.
\<close>

definition repeated_word :: matcher where
  "repeated_word prev s =
     (if word_boundary prev s \<and> takeWhile is_word s \<noteq> []
           \<and> takeWhile is_ws (dropWhile is_word s) \<noteq> []
           \<and> lit_ci (takeWhile is_word s) (dropWhile is_ws (dropWhile is_word s))
           \<and> word_boundary
                (Some (last (take (length (takeWhile is_word s)) (dropWhile is_ws (dropWhile is_word s)))))
                (drop (length (takeWhile is_word s)) (dropWhile is_ws (dropWhile is_word s)))
      then Some (2 * length (takeWhile is_word s) + length (takeWhile is_ws (dropWhile is_word s)))
      else None)"

text \<open>\<^verbatim>\<open>/\s+([,.])/g\<close>\<close>

definition space_before_punct :: matcher where
  "space_before_punct prev s =
     (if takeWhile is_ws s \<noteq> []
      then (case dropWhile is_ws s of
              [] \<Rightarrow> None
            | c # r \<Rightarrow> if c = CHR '','' \<or> c = CHR ''.'' then Some (length (takeWhile is_ws s) + 1) else None)
      else None)"

text \<open>\<^verbatim>\<open>/([,.])\s{2,}/g\<close>\<close>

definition punct_multi_space :: matcher where
  "punct_multi_space prev s =
     (case s of
        [] \<Rightarrow> None
      | c # r \<Rightarrow>
          if (c = CHR '','' \<or> c = CHR ''.'') \<and> 2 \<le> length (takeWhile is_ws r)
          then Some (length (takeWhile is_ws r) + 1) else None)"

text \<open>\<open>s.split(/[.!?]/)\<close>: the pieces between the separators; a separator-free string is one piece.\<close>

fun split_on :: "(char \<Rightarrow> bool) \<Rightarrow> string \<Rightarrow> string list" where
  "split_on P [] = [[]]"
| "split_on P (c # cs) =
     (if P c then [] # split_on P cs
      else (case split_on P cs of [] \<Rightarrow> [[c]] | x # xs \<Rightarrow> (c # x) # xs))"

section \<open>The correction engine (\<open>src/lib/correctionEngine.ts\<close>)\<close>

datatype change_type = Punctuation | Filler | Casing | Spacing | Boundary

record Change =
  ctype :: change_type
  description :: string
  position :: nat

record CorrectionResult =
  original :: string
  corrected :: string
  changes :: "Change list"

text \<open>
  The stages work on the pair of the local variable \<open>result\<close> and the array
  \<open>changes\<close>. Step 1, for one pattern: push one Change per match of \<open>matchAll\<close>, then
  delete the matches.
\<close>

definition remove_filler :: "matcher \<Rightarrow> string \<times> Change list \<Rightarrow> string \<times> Change list" where
  "remove_filler pattern = (\<lambda>(result, chs).
     (replace_cb pattern (\<lambda>i b m. []) result,
      chs @ map (\<lambda>(i, m). \<lparr>ctype = Filler,
                             description = ''Removed filler: '' @ [dquote] @ trim m @ [dquote],
                             position = i\<rparr>)
                (matchAll pattern result)))"

text \<open>Step 2.\<close>

definition fix_multiple_spaces :: "string \<times> Change list \<Rightarrow> string \<times> Change list" where
  "fix_multiple_spaces = (\<lambda>(result, chs).
     (replace_cb multi_space (\<lambda>i b m. '' '') result,
      chs @ map (\<lambda>(i, m). \<lparr>ctype = Spacing, description = ''Fixed multiple spaces'', position = i\<rparr>)
                (matchAll multi_space result)))"

text \<open>
  Step 3. The callback of one trigger: \<open>word\<close> is the second group, \<open>pre\<close> is
  \<open>result[offset - 1]\<close>, read from the string being scanned. With punctuation before the
  match, or at offset 0, the match is put back unchanged.
\<close>

definition capitalize :: "string \<Rightarrow> string" where
  "capitalize w = (case w of [] \<Rightarrow> [] | c # cs \<Rightarrow> toUpperCase c # cs)"

definition trigger_word :: "string \<Rightarrow> string \<Rightarrow> string" where
  "trigger_word trigger m = take (length trigger) (drop 1 m)"

definition boundary_fires :: "char option \<Rightarrow> bool" where
  "boundary_fires pre = (case pre of None \<Rightarrow> False | Some b \<Rightarrow> b \<notin> set ''.!?,;:'')"

definition boundary_text :: "string \<Rightarrow> nat \<Rightarrow> char option \<Rightarrow> string \<Rightarrow> string" where
  "boundary_text trigger offset pre m =
     (if boundary_fires pre then ''. '' @ capitalize (trigger_word trigger m) @ '' '' else m)"

definition boundary_push :: "string \<Rightarrow> nat \<Rightarrow> char option \<Rightarrow> string \<Rightarrow> Change list" where
  "boundary_push trigger offset pre m =
     (if boundary_fires pre
      then [\<lparr>ctype = Boundary,
             description = ''Added period before '' @ [dquote] @ trigger_word trigger m @ [dquote],
             position = offset\<rparr>]
      else [])"

definition apply_trigger :: "string \<Rightarrow> string \<times> Change list \<Rightarrow> string \<times> Change list" where
  "apply_trigger trigger = (\<lambda>(result, chs).
     (replace_cb (trigger_pattern trigger) (boundary_text trigger) result,
      chs @ pushes_cb (trigger_pattern trigger) (boundary_push trigger) result))"

definition is_terminal :: "char \<Rightarrow> bool" where
  "is_terminal c = (c \<in> set ''.!?'')"

definition long_segments :: "string \<Rightarrow> Change list" where
  "long_segments result =
     concat (map (\<lambda>(i, segment).
                    if 100 < length segment
                    then [\<lparr>ctype = Boundary,
                           description = ''Long sentence detected - may need manual review'',
                           position = i\<rparr>]
                    else [])
                 (enumerate 0 (split_on is_terminal result)))"

definition inferSentenceBoundaries :: "string \<Rightarrow> Change list \<Rightarrow> string \<times> Change list" where
  "inferSentenceBoundaries text chs =
     (let (result, chs') = fold apply_trigger BOUNDARY_TRIGGERS (text, chs)
      in (result, chs' @ long_segments result))"

text \<open>
  Step 4. The group \<open>letter\<close> is the last character of the match. The pushed position
  is the local \<open>position\<close> of \<open>applyCorrections\<close>.
\<close>

definition capitalize_after_period :: "nat \<Rightarrow> string \<times> Change list \<Rightarrow> string \<times> Change list" where
  "capitalize_after_period pos = (\<lambda>(result, chs).
     (replace_cb period_lower (\<lambda>i b m. ''. '' @ [toUpperCase (last m)]) result,
      chs @ pushes_cb period_lower
              (\<lambda>i b m. [\<lparr>ctype = Casing, description = ''Capitalized after period'', position = pos\<rparr>])
              result))"

text \<open>Step 5.\<close>

definition capitalize_first :: "string \<times> Change list \<Rightarrow> string \<times> Change list" where
  "capitalize_first = (\<lambda>(result, chs).
     (case result of
        [] \<Rightarrow> (result, chs)
      | c # cs \<Rightarrow>
          if is_lower c
          then (toUpperCase c # cs,
                chs @ [\<lparr>ctype = Casing, description = ''Capitalized first letter'', position = 0\<rparr>])
          else (result, chs)))"

text \<open>Step 6.\<close>

definition capitalize_i :: "string \<times> Change list \<Rightarrow> string \<times> Change list" where
  "capitalize_i = (\<lambda>(result, chs). (replace_cb standalone_i (\<lambda>i b m. ''I'') result, chs))"

text \<open>Step 7. \<^verbatim>\<open>/[.!?]$/.test(result.trim())\<close>: the trimmed text ends in one of the three.\<close>

definition ends_terminal :: "string \<Rightarrow> bool" where
  "ends_terminal s = (s \<noteq> [] \<and> is_terminal (last s))"

definition add_ending_punctuation :: "string \<times> Change list \<Rightarrow> string \<times> Change list" where
  "add_ending_punctuation = (\<lambda>(result, chs).
     if 0 < length result \<and> \<not> ends_terminal (trim result)
     then (trim result @ ''.'',
           chs @ [\<lparr>ctype = Punctuation, description = ''Added ending period'',
                   position = length result\<rparr>])
     else (result, chs))"

text \<open>
  Step 8. The \<open>changes\<close> argument is not touched. In the replacement strings
  \<open>$1\<close> is the first group: the leading run of word characters of a repeated-word
  match, the last character of a match of \<^verbatim>\<open>/\s+([,.])/\<close>, the first character of
  a match of \<^verbatim>\<open>/([,.])\s{2,}/\<close>.
\<close>

definition fixCommonArtifacts :: "string \<Rightarrow> Change list \<Rightarrow> string" where
  "fixCommonArtifacts text chs =
     (let result = text;
          result = replace_cb (whole_word ''gonna'') (\<lambda>i b m. ''going to'') result;
          result = replace_cb (whole_word ''wanna'') (\<lambda>i b m. ''want to'') result;
          result = replace_cb (whole_word ''gotta'') (\<lambda>i b m. ''got to'') result;
          result = replace_cb repeated_word (\<lambda>i b m. takeWhile is_word m) result;
          result = replace_cb space_before_punct (\<lambda>i b m. [last m]) result;
          result = replace_cb punct_multi_space (\<lambda>i b m. [hd m, CHR '' '']) result
      in result)"

text \<open>Steps 1 to 6 of \<open>applyCorrections\<close>, up to the test for ending punctuation.\<close>

definition before_ending_punctuation :: "string \<Rightarrow> string \<times> Change list" where
  "before_ending_punctuation text =
     (let position = 0;
          st = fold remove_filler FILLER_PATTERNS (text, []);
          st = fix_multiple_spaces st;
          st = inferSentenceBoundaries (fst st) (snd st);
          st = capitalize_after_period position st;
          st = capitalize_first st
      in capitalize_i st)"

definition applyCorrections :: "string \<Rightarrow> number list \<Rightarrow> CorrectionResult" where
  "applyCorrections text similarities =
     (let st = add_ending_punctuation (before_ending_punctuation text);
          result = fixCommonArtifacts (fst st) (snd st)
      in \<lparr>original = text, corrected = trim result, changes = snd st\<rparr>)"

section \<open>The transcription hook (\<open>src/hooks/useTranscribe.ts\<close>)\<close>

text \<open>
  A log entry keeps its type and its message; a message that interpolates numbers keeps
  the numbers instead of their decimal rendering.
\<close>

datatype log_type = Info | Error | Success

datatype log_message =
    Msg string
  | NormalizingMsg number number number
  | SendingChunkMsg nat

record DebugLog =
  message :: log_message
  ltype :: log_type

text \<open>\<open>addLog\<close>: append, keep the last 50 entries.\<close>

definition addLog :: "log_message \<Rightarrow> log_type \<Rightarrow> DebugLog list \<Rightarrow> DebugLog list" where
  "addLog m t lgs =
     drop (length (lgs @ [\<lparr>message = m, ltype = t\<rparr>]) - 50) (lgs @ [\<lparr>message = m, ltype = t\<rparr>])"

record hook_state =
  isModelLoading :: bool
  isModelLoaded :: bool
  isRecording :: bool
  isTranscribing :: bool
  transcription :: string
  progress :: int
  error :: "string option"
  logs :: "DebugLog list"

text \<open>
  The \<open>data\<close> of a \<open>complete\<close> message: an object (with its \<open>text\<close>, when it has
  one), an array of objects (each with its \<open>text\<close>, when it has one), or anything else.
\<close>

datatype payload = Obj "string option" | Arr "string option list" | Other

datatype worker_event =
    Download string "real option"
  | Ready
  | Complete payload
  | ErrorEvent "string option"

text \<open>\<open>xs.join(' ')\<close>; an undefined element joins as the empty string.\<close>

fun join_space :: "string option list \<Rightarrow> string" where
  "join_space [] = []"
| "join_space [x] = (case x of None \<Rightarrow> [] | Some t \<Rightarrow> t)"
| "join_space (x # y # r) = (case x of None \<Rightarrow> [] | Some t \<Rightarrow> t) @ '' '' @ join_space (y # r)"

definition append_result :: "string \<Rightarrow> payload \<Rightarrow> string" where
  "append_result prev d =
     (case d of
        Obj (Some t) \<Rightarrow>
          if t \<noteq> [] then prev @ (if prev \<noteq> [] then '' '' else []) @ trim t else prev
      | Obj None \<Rightarrow> prev
      | Arr chunks \<Rightarrow> prev @ (if prev \<noteq> [] then '' '' else []) @ trim (join_space chunks)
      | Other \<Rightarrow> prev)"

definition onmessage :: "worker_event \<Rightarrow> 'a hook_state_scheme \<Rightarrow> 'a hook_state_scheme" where
  "onmessage ev s =
     (case ev of
        Download status p \<Rightarrow>
          (case p of
             None \<Rightarrow> s
           | Some x \<Rightarrow> if status = ''progress'' \<and> x \<noteq> 0 then s\<lparr>progress := round x\<rparr> else s)
      | Ready \<Rightarrow>
          s\<lparr>logs := addLog (Msg ''Whisper model loaded and ready'') Success (logs s),
            isModelLoading := False, isModelLoaded := True, progress := 100\<rparr>
      | Complete d \<Rightarrow>
          s\<lparr>logs := addLog (Msg ''Transcription completed'') Success (logs s),
            isTranscribing := False,
            transcription := append_result (transcription s) d\<rparr>
      | ErrorEvent d \<Rightarrow>
          s\<lparr>logs := addLog (Msg ''Worker reported error'') Error (logs s),
            isModelLoading := False, isTranscribing := False,
            error := Some (case d of Some reason \<Rightarrow> reason | None \<Rightarrow> ''Worker error occurred'')\<rparr>)"

text \<open>
  \<open>normalizeAudio\<close>: one pass for peak and sum of squares, then the gain. The samples
  come from a \<open>Float32Array\<close> and the scaled samples are stored into one.
\<close>

record normalized =
  normalizedData :: "number list"
  peak :: number
  gain :: number

definition peak_and_sum :: "number list \<Rightarrow> number \<times> number" where
  "peak_and_sum audioData =
     fold (\<lambda>x (pk, sumSquared).
             (if n_greater (n_abs x) pk then n_abs x else pk, n_plus sumSquared (n_times x x)))
          audioData (Fin 0, Fin 0)"

definition normalizeAudio :: "number list \<Rightarrow> DebugLog list \<Rightarrow> normalized \<times> DebugLog list" where
  "normalizeAudio audioData lgs =
     (let (pk, sumSquared) = peak_and_sum audioData;
          rms = n_sqrt (n_divide sumSquared (to_double (real (length audioData))));
          targetLevel = to_double 0.95
      in if \<not> isFinite pk \<or> pk = Fin 0
         then (\<lparr>normalizedData = audioData, peak = pk, gain = Fin 1.0\<rparr>,
               addLog (Msg ''Audio peak is zero or invalid.'') Error lgs)
         else (\<lparr>normalizedData = map (\<lambda>x. fround (n_times x (n_divide targetLevel pk))) audioData,
                 peak = pk, gain = n_divide targetLevel pk\<rparr>,
               addLog (NormalizingMsg pk rms (n_divide targetLevel pk)) Info lgs))"

section \<open>The streaming variant of the hook (\<open>src/unnamed/part_002\<close>)\<close>

text \<open>
  This variant samples continuously and sends a chunk about every four seconds. On top of
  the React state it keeps the refs: the sample buffer, the sample rate of the live
  \<open>AudioContext\<close>, whether the media stream and the worker exist. \<open>outbox\<close> lists the
  messages posted to the worker, oldest first (a message of the protocol is
  \<open>configure\<close> or \<open>transcribe\<close> with its \<open>audio\<close>, if any, and
  \<open>language\<close>; \<open>OtherMessage\<close> is a message of any other type). \<open>handlerLoaded\<close> is the value of
  \<open>isModelLoaded\<close> that the \<open>onaudioprocess\<close> handler closed over when
  \<open>startRecording\<close> installed it. \<open>pending\<close> lists the calls of
  \<open>normalizeAndSendAudio\<close> that wait at \<open>await offlineCtx.startRendering()\<close>, oldest
  first, each with what its rendering will give: the resampled samples, or \<open>None\<close> when
  the promise rejects.
\<close>

datatype to_worker = Configure | Transcribe "number list option" string | OtherMessage string

record stream_state = hook_state +
  worker :: bool
  audioBuffer :: "number list"
  contextRate :: "nat option"
  mediaStream :: bool
  handlerLoaded :: bool
  outbox :: "to_worker list"
  pending :: "number list option list"

text \<open>The \<open>complete\<close> case of this variant stores the text of the message.\<close>

definition store_result :: "string \<Rightarrow> payload \<Rightarrow> string" where
  "store_result prev d =
     (case d of
        Obj (Some t) \<Rightarrow> if t \<noteq> [] then trim t else prev
      | Obj None \<Rightarrow> prev
      | Arr chunks \<Rightarrow> trim (join_space chunks)
      | Other \<Rightarrow> prev)"

definition onmessage_streaming :: "worker_event \<Rightarrow> stream_state \<Rightarrow> stream_state" where
  "onmessage_streaming ev s =
     (case ev of
        Complete d \<Rightarrow>
          s\<lparr>logs := addLog (Msg ''Transcription completed'') Success (logs s),
            isTranscribing := False,
            transcription := store_result (transcription s) d\<rparr>
      | _ \<Rightarrow> onmessage ev s)"

text \<open>
  \<open>normalizeAndSendAudio\<close> is an \<open>async\<close> function and its callers do not await it.
  It runs in two steps. The first, in the step of its caller, goes up to
  \<open>await offlineCtx.startRendering()\<close>: the test of the worker and of \<open>loaded\<close> (the
  \<open>isModelLoaded\<close> of the closure that calls it) and the set-up of the
  \<open>OfflineAudioContext\<close> at 16 kHz. \<open>resample rate xs\<close> stands for that context fed
  with \<open>xs\<close> at \<open>rate\<close>: \<open>Refused\<close> when the set-up throws, which the \<open>catch\<close> block
  logs at once, otherwise \<open>Started r\<close> with what the rendering will give.
\<close>

datatype offline_render = Refused | Started "number list option"

type_synonym resampler = "nat \<Rightarrow> number list \<Rightarrow> offline_render"

definition normalizeAndSendAudio ::
  "resampler \<Rightarrow> bool \<Rightarrow> number list \<Rightarrow> stream_state \<Rightarrow> stream_state" where
  "normalizeAndSendAudio resample loaded audioData s =
     (if \<not> worker s \<or> \<not> loaded
      then s\<lparr>logs := addLog (Msg ''Cannot process: Worker not ready'') Error (logs s)\<rparr>
      else (case resample (case contextRate s of None \<Rightarrow> 48000 | Some r \<Rightarrow> if r = 0 then 48000 else r)
                   audioData of
              Refused \<Rightarrow> s\<lparr>logs := addLog (Msg ''Error preparing audio chunk'') Error (logs s)\<rparr>
            | Started r \<Rightarrow> s\<lparr>pending := pending s @ [r]\<rparr>))"

text \<open>
  The second step runs when the rendering settles, as an event of its own: the peak loop,
  the gain, the scaled samples stored into a new \<open>Float32Array\<close>, then
  \<open>setIsTranscribing\<close>, the log entry and the post. A rejected rendering, and a worker
  that is gone by then (\<open>workerRef.current\<close> is null and the call on it throws), end in
  the \<open>catch\<close> block.
\<close>

definition stream_peak :: "number list \<Rightarrow> number" where
  "stream_peak xs = fold (\<lambda>x pk. if n_greater (n_abs x) pk then n_abs x else pk) xs (Fin 0)"

definition stream_gain :: "number list \<Rightarrow> number" where
  "stream_gain xs =
     (if n_greater (stream_peak xs) (Fin 0) then n_divide (to_double 0.95) (stream_peak xs) else Fin 1.0)"

definition stream_normalize :: "number list \<Rightarrow> number list" where
  "stream_normalize xs = map (\<lambda>x. fround (n_times x (stream_gain xs))) xs"

definition afterRendering :: "nat \<Rightarrow> stream_state \<Rightarrow> stream_state" where
  "afterRendering i s =
     (if i < length (pending s)
      then (let s1 = s\<lparr>pending := take i (pending s) @ drop (Suc i) (pending s)\<rparr>
            in case pending s ! i of
                 None \<Rightarrow> s1\<lparr>logs := addLog (Msg ''Error preparing audio chunk'') Error (logs s1)\<rparr>
               | Some resampledData \<Rightarrow>
                   (let s2 = s1\<lparr>isTranscribing := True,
                                logs := addLog (SendingChunkMsg (length (stream_normalize resampledData)))
                                          Info (logs s1)\<rparr>
                    in if worker s
                       then s2\<lparr>outbox := outbox s2 @ [Transcribe (Some (stream_normalize resampledData)) ''english'']\<rparr>
                       else s2\<lparr>logs := addLog (Msg ''Error preparing audio chunk'') Error (logs s2)\<rparr>))
      else s)"

definition CHUNK_DURATION_SEC :: nat where
  "CHUNK_DURATION_SEC = 4"

datatype stream_event =
    WorkerMessage worker_event
  | StartRecording "nat option"
  | AudioProcess "number list"
  | StopRecording
  | RenderingSettled nat
  | Unmount

text \<open>
  \<open>StartRecording (Some rate)\<close>: the microphone is granted and the new
  \<open>AudioContext\<close> runs at \<open>rate\<close>; \<open>StartRecording None\<close>: \<open>getUserMedia\<close>
  rejects. \<open>AudioProcess xs\<close> is one \<open>onaudioprocess\<close> event with the samples
  \<open>xs\<close>; the node fires only between start and stop. \<open>RenderingSettled i\<close>: the
  rendering of the \<open>i\<close>-th pending call settles (the renderings are independent and may
  settle in any order). \<open>Unmount\<close>: the clean-up of the mounting effect terminates the
  worker.
\<close>

definition startRecording :: "nat option \<Rightarrow> stream_state \<Rightarrow> stream_state" where
  "startRecording granted s =
     (case granted of
        Some rate \<Rightarrow>
          s\<lparr>transcription := [], error := None, audioBuffer := [],
            mediaStream := True, contextRate := Some rate, handlerLoaded := isModelLoaded s,
            logs := addLog (Msg ''Microphone access granted & streaming started'') Success (logs s),
            isRecording := True\<rparr>
      | None \<Rightarrow>
          s\<lparr>transcription := [], audioBuffer := [],
            error := Some ''Could not access microphone'',
            logs := addLog (Msg ''Microphone access failed'') Error (logs s)\<rparr>)"

definition onaudioprocess :: "resampler \<Rightarrow> number list \<Rightarrow> stream_state \<Rightarrow> stream_state" where
  "onaudioprocess resample inputData s =
     (case contextRate s of
        None \<Rightarrow> s
      | Some rate \<Rightarrow>
          if length (audioBuffer s @ inputData) \<ge> rate * CHUNK_DURATION_SEC
          then normalizeAndSendAudio resample (handlerLoaded s) (audioBuffer s @ inputData)
                 (s\<lparr>audioBuffer := []\<rparr>)
          else s\<lparr>audioBuffer := audioBuffer s @ inputData\<rparr>)"

definition stopRecording :: "resampler \<Rightarrow> stream_state \<Rightarrow> stream_state" where
  "stopRecording resample s =
     (if mediaStream s
      then (let s1 = (if length (audioBuffer s) > 0
                      then (normalizeAndSendAudio resample (isModelLoaded s) (audioBuffer s)
                              (s\<lparr>logs := addLog (Msg ''Flushing remaining audio buffer...'') Info (logs s)\<rparr>))
                           \<lparr>audioBuffer := []\<rparr>
                      else s)
            in s1\<lparr>mediaStream := False, contextRate := None, isRecording := False,
                  logs := addLog (Msg ''Recording stopped'') Info (logs s1)\<rparr>)
      else s)"

definition step :: "resampler \<Rightarrow> stream_event \<Rightarrow> stream_state \<Rightarrow> stream_state" where
  "step resample ev s =
     (case ev of
        WorkerMessage m \<Rightarrow> onmessage_streaming m s
      | StartRecording granted \<Rightarrow> startRecording granted s
      | AudioProcess inputData \<Rightarrow> onaudioprocess resample inputData s
      | StopRecording \<Rightarrow> stopRecording resample s
      | RenderingSettled i \<Rightarrow> afterRendering i s
      | Unmount \<Rightarrow> s\<lparr>worker := False\<rparr>)"

definition run :: "resampler \<Rightarrow> stream_event list \<Rightarrow> stream_state \<Rightarrow> stream_state" where
  "run resample evs s = fold (step resample) evs s"

text \<open>The state after the mounting effect: the worker exists and was sent \<open>configure\<close>.\<close>

definition mounted :: stream_state where
  "mounted =
     \<lparr>isModelLoading = True, isModelLoaded = False, isRecording = False, isTranscribing = False,
      transcription = [], progress = 0, error = None,
      logs = [\<lparr>message = Msg ''Initializing worker thread...'', ltype = Info\<rparr>],
      worker = True, audioBuffer = [], contextRate = None, mediaStream = False,
      handlerLoaded = False, outbox = [Configure], pending = []\<rparr>"

section \<open>The inference worker (\<open>src/worker.ts\<close>)\<close>

text \<open>
  The handler is a program over the singleton \<open>PipelineSingleton.instance\<close>: it posts
  messages, and it ends with a value or with a throw. Anything can be thrown in
  JavaScript, and the \<open>catch\<close> blocks read \<open>.message\<close> of whatever they caught, behind
  an unchecked cast. So a thrown value is one of three kinds: an \<open>Error\<close> (any object
  with a string \<open>message\<close>), a value whose \<open>message\<close> is no string (for a thrown
  string, number or plain object the property reads as \<open>undefined\<close>), or \<open>null\<close> /
  \<open>undefined\<close>, of which reading a property throws a \<open>TypeError\<close>. The library is a parameter: what
  loading the pipeline does (the progress reports it makes, then an instance or a throw)
  and what the loaded transcriber does on an audio buffer.
\<close>

datatype thrown = ErrorObject string | Messageless | Nullish

datatype 'a outcome = Returns 'a | Throws thrown

record 'p engine =
  load_pipeline :: "(string \<times> real option) list \<times> 'p outcome"
  transcriber :: "'p \<Rightarrow> number list \<Rightarrow> string \<Rightarrow> payload outcome"

type_synonym ('p, 'a) prog = "'p option \<Rightarrow> worker_event list \<times> 'p option \<times> (thrown + 'a)"

definition return :: "'a \<Rightarrow> ('p, 'a) prog" where
  "return x = (\<lambda>inst. ([], inst, Inr x))"

definition throw :: "thrown \<Rightarrow> ('p, 'a) prog" where
  "throw e = (\<lambda>inst. ([], inst, Inl e))"

definition postMessage :: "worker_event \<Rightarrow> ('p, unit) prog" where
  "postMessage m = (\<lambda>inst. ([m], inst, Inr ()))"

definition bind :: "('p, 'a) prog \<Rightarrow> ('a \<Rightarrow> ('p, 'b) prog) \<Rightarrow> ('p, 'b) prog" where
  "bind p f = (\<lambda>inst.
     case p inst of
       (posts, inst', Inl e) \<Rightarrow> (posts, inst', Inl e)
     | (posts, inst', Inr x) \<Rightarrow>
         (case f x inst' of (posts', inst'', r) \<Rightarrow> (posts @ posts', inst'', r)))"

definition try_catch :: "('p, 'a) prog \<Rightarrow> (thrown \<Rightarrow> ('p, 'a) prog) \<Rightarrow> ('p, 'a) prog" where
  "try_catch p h = (\<lambda>inst.
     case p inst of
       (posts, inst', Inl e) \<Rightarrow>
         (case h e inst' of (posts', inst'', r) \<Rightarrow> (posts @ posts', inst'', r))
     | (posts, inst', Inr x) \<Rightarrow> (posts, inst', Inr x))"

definition of_outcome :: "'a outcome \<Rightarrow> ('p, 'a) prog" where
  "of_outcome r = (case r of Returns x \<Rightarrow> return x | Throws e \<Rightarrow> throw e)"

text \<open>
  \<open>PipelineSingleton.getInstance(progress_callback)\<close>: load once, keep the instance.
  With a callback every progress report is posted as a \<open>download\<close> message; a failed
  load leaves the instance \<open>null\<close>.
\<close>

definition getInstance :: "'p engine \<Rightarrow> bool \<Rightarrow> ('p, 'p) prog" where
  "getInstance eng with_callback = (\<lambda>inst.
     case inst of
       Some p \<Rightarrow> ([], inst, Inr p)
     | None \<Rightarrow>
         (let reports = (if with_callback
                         then map (\<lambda>(status, pr). Download status pr) (fst (load_pipeline eng))
                         else [])
          in case snd (load_pipeline eng) of
               Returns p \<Rightarrow> (reports, Some p, Inr p)
             | Throws e \<Rightarrow> (reports, None, Inl e)))"

text \<open>
  The body of both \<open>catch\<close> blocks:
  \<^verbatim>\<open>self.postMessage({ type: 'error', data: (error as Error).message })\<close>. The
  \<open>data\<close> of the message is the message of an \<open>Error\<close>; for a value without a
  string \<open>message\<close> it is no string (\<open>undefined\<close>, as a rule), which \<open>ErrorEvent None\<close>
  stands for; for \<open>null\<close> and \<open>undefined\<close> the read itself throws and nothing is
  posted.
\<close>

definition TypeError :: thrown where
  "TypeError = ErrorObject ''Cannot read properties of null''"

definition post_error :: "thrown \<Rightarrow> ('p, unit) prog" where
  "post_error e =
     (case e of
        ErrorObject reason \<Rightarrow> postMessage (ErrorEvent (Some reason))
      | Messageless \<Rightarrow> postMessage (ErrorEvent None)
      | Nullish \<Rightarrow> throw TypeError)"

definition worker_onmessage :: "'p engine \<Rightarrow> to_worker \<Rightarrow> ('p, unit) prog" where
  "worker_onmessage eng msg =
     (case msg of
        Configure \<Rightarrow>
          try_catch
            (bind (getInstance eng True) (\<lambda>p. postMessage Ready))
            post_error
      | Transcribe audio language \<Rightarrow>
          (case audio of
             None \<Rightarrow> postMessage (ErrorEvent (Some ''No audio data provided''))
           | Some a \<Rightarrow>
               try_catch
                 (bind (getInstance eng False) (\<lambda>p.
                  bind (of_outcome (transcriber eng p a (if language = [] then ''english'' else language)))
                    (\<lambda>output. postMessage (Complete output))))
                 post_error)
      | OtherMessage t \<Rightarrow> return ())"

section \<open>The claims' own notions\<close>

text \<open>
  The transcript that the specification promises after a \<open>complete\<close> message: the
  previous transcript, one space when that is non-empty, the text of the message (trimmed,
  as the program extracts it; the segment texts joined with single spaces for an array).
\<close>

definition result_text :: "payload \<Rightarrow> string" where
  "result_text d =
     (case d of
        Obj (Some t) \<Rightarrow> trim t
      | Obj None \<Rightarrow> []
      | Arr chunks \<Rightarrow> trim (join_space chunks)
      | Other \<Rightarrow> [])"

definition claimed_transcript :: "string \<Rightarrow> payload \<Rightarrow> string" where
  "claimed_transcript prev d = prev @ (if prev \<noteq> [] then '' '' else []) @ result_text d"

text \<open>The messages whose text the handler takes up: a non-empty \<open>text\<close>, or an array.\<close>

definition has_text :: "payload \<Rightarrow> bool" where
  "has_text d =
     (case d of Obj (Some t) \<Rightarrow> t \<noteq> [] | Obj None \<Rightarrow> False | Arr chunks \<Rightarrow> True | Other \<Rightarrow> False)"

definition hook_example :: hook_state where
  "hook_example =
     \<lparr>isModelLoading = False, isModelLoaded = True, isRecording = False, isTranscribing = True,
      transcription = ''a'', progress = 100, error = None, logs = []\<rparr>"




text \<open>
  A microphone context that runs at 16 kHz already: rendering at 16 kHz gives back the
  samples. Four seconds of it are 16 events of 4096 samples (the buffer size of the script
  node), here of silence. \<open>eight_seconds\<close>: the model is ready, recording starts, and
  twice four seconds are recorded, each chunk's rendering settling before the next chunk
  is cut; no message of the worker arrives after \<open>ready\<close>.
\<close>

definition same_rate :: resampler where
  "same_rate rate xs = Started (Some xs)"

definition silent_frame :: stream_event where
  "silent_frame = AudioProcess (replicate 4096 (Fin 0))"

definition four_seconds :: "stream_event list" where
  "four_seconds = replicate 16 silent_frame @ [RenderingSettled 0]"


text \<open>The values that an element of a \<open>Float32Array\<close> can hold: storing them changes nothing.\<close>

definition is_float32 :: "number \<Rightarrow> bool" where
  "is_float32 x = (fround x = x)"

text \<open>A worker whose model fails to load and whose transcriber fails, both by throwing \<open>e\<close>.\<close>

definition failing_engine :: "thrown \<Rightarrow> unit engine" where
  "failing_engine e =
     \<lparr>load_pipeline = ([(''progress'', Some 50)], Throws e),
      transcriber = (\<lambda>p a l. Throws e)\<rparr>"






text \<open>
  For the end of the corrected text: the characters of a string that are not whitespace,
  and how the string ends once whitespace is left aside: in nothing, in a character other
  than \<open>.\<close>, \<open>!\<close>, \<open>?\<close>, or in one of these.
\<close>

definition visible :: "string \<Rightarrow> string" where
  "visible s = filter (\<lambda>c. \<not> is_ws c) s"

definition end_mark :: "string \<Rightarrow> char option option" where
  "end_mark s =
     (if visible s = [] then None
      else Some (if is_terminal (last (visible s)) then Some (last (visible s)) else None))"

section \<open>The patterns at work\<close>

text \<open>
  A word boundary in front is all that \<open>um+\<close> and \<open>er+\<close> ask for, so they bite into
  longer words; \<open>like\<close> goes only with whitespace (and an optional comma) behind it.
\<close>

lemma filler_hesitation_example:
  "replace_cb filler_hesitation (\<lambda>i b m. []) ''ummm her umbrella, like, an error'' = '' her brella, an or''"
  by code_simp

lemma matchAll_example:
  "matchAll (filler_phrase ''you know'') ''You know, I do. you know  it'' = [(0, ''You know, ''), (16, ''you know '')]"
  by code_simp

text \<open>A trigger word fires only between whitespace and not behind punctuation.\<close>

lemma apply_trigger_example:
  "apply_trigger ''but'' (''a but b, but c but'', [])
     = (''a. But b, but c but'',
        [\<lparr>ctype = Boundary, description = ''Added period before '' @ [dquote] @ ''but'' @ [dquote],
           position = 1\<rparr>])"
  by code_simp

text \<open>Repeated words are merged pairwise, up to case, first spelling kept.\<close>

lemma repeated_word_example:
  "replace_cb repeated_word (\<lambda>i b m. takeWhile is_word m) ''The the cat cat  cat sat sats'' = ''The cat  cat sat sats''"
  by code_simp

lemma spacing_example:
  "replace_cb punct_multi_space (\<lambda>i b m. [hd m, CHR '' ''])
     (replace_cb space_before_punct (\<lambda>i b m. [last m]) ''a  ,   b .c'') = ''a, b.c''"
  by code_simp

section \<open>Rounding\<close>

text \<open>
  What the proofs need of rounding to nearest: it is odd and monotone, it errs by at most
  half a spacing, which is a relative error of \<^verbatim>\<open>2^-p\<close> on normal values, and it is
  evaluated from the binade of its argument.
\<close>

lemma two_to_pos [simp]: "0 < two_to k"
  by (simp add: two_to_def)

lemma two_to_nonzero [simp]: "two_to k \<noteq> 0"
  by (simp add: two_to_def)

lemma two_to_add: "two_to (a + b) = two_to a * two_to b"
  by (simp add: two_to_def powr_add)

lemma two_to_mono: "a \<le> b \<Longrightarrow> two_to a \<le> two_to b"
  by (simp add: two_to_def)

lemma two_to_less: "a < b \<Longrightarrow> two_to a < two_to b"
  by (simp add: two_to_def)

lemma two_to_nat: "two_to (int n) = 2 ^ n"
  by (simp add: two_to_def powr_realpow)

lemma two_to_neg: "two_to (- int n) = 1 / 2 ^ n"
  by (simp add: two_to_def powr_minus powr_realpow divide_inverse)

lemma two_to_0 [simp]: "two_to 0 = 1"
  by (simp add: two_to_def)

lemma binade:
  assumes "x \<noteq> 0"
  shows "two_to \<lfloor>log 2 \<bar>x\<bar>\<rfloor> \<le> \<bar>x\<bar>" and "\<bar>x\<bar> < two_to (\<lfloor>log 2 \<bar>x\<bar>\<rfloor> + 1)"
  using assms floor_log_eq_powr_iff [of "\<bar>x\<bar>" 2 "\<lfloor>log 2 \<bar>x\<bar>\<rfloor>"]
  by (simp_all add: two_to_def)

lemma binade_unique:
  assumes "two_to k \<le> \<bar>x\<bar>" and "\<bar>x\<bar> < two_to (k + 1)"
  shows "\<lfloor>log 2 \<bar>x\<bar>\<rfloor> = k"
proof -
  have "0 < \<bar>x\<bar>" using assms(1) two_to_pos [of k] by linarith
  then show ?thesis
    using assms floor_log_eq_powr_iff [of "\<bar>x\<bar>" 2 k] by (simp add: two_to_def)
qed

lemma nearest_even_error: "\<bar>of_int (nearest_even y) - y\<bar> \<le> 1/2"
  unfolding nearest_even_def by (auto; linarith)

lemma nearest_even_range: "\<lfloor>y\<rfloor> \<le> nearest_even y \<and> nearest_even y \<le> \<lfloor>y\<rfloor> + 1"
  unfolding nearest_even_def by auto

lemma nearest_even_int [simp]: "nearest_even (of_int k) = k"
  unfolding nearest_even_def by simp

lemma nearest_even_mono:
  assumes "x \<le> y"
  shows "nearest_even x \<le> nearest_even y"
proof (cases "\<lfloor>x\<rfloor> = \<lfloor>y\<rfloor>")
  case True
  then show ?thesis using assms unfolding nearest_even_def by (auto; linarith)
next
  case False
  then have "\<lfloor>x\<rfloor> < \<lfloor>y\<rfloor>" using assms floor_mono [of x y] by linarith
  then show ?thesis using nearest_even_range [of x] nearest_even_range [of y] by linarith
qed

lemma nearest_even_minus: "nearest_even (- y) = - nearest_even y"
proof (cases "y = of_int \<lfloor>y\<rfloor>")
  case True
  then obtain k where "y = of_int k" by blast
  then have "- y = of_int (- k)" by simp
  then show ?thesis using \<open>y = of_int k\<close> nearest_even_int by metis
next
  case False
  then have lt: "of_int \<lfloor>y\<rfloor> < y" using of_int_floor_le [of y] by linarith
  have ub: "y < of_int \<lfloor>y\<rfloor> + 1" by linarith
  have f: "\<lfloor>- y\<rfloor> = - \<lfloor>y\<rfloor> - 1"
  proof (rule floor_unique)
    have "- of_int \<lfloor>y\<rfloor> - 1 \<le> - y" using ub by linarith
    then show "of_int (- \<lfloor>y\<rfloor> - 1) \<le> - y" by simp
    have "- y < - of_int \<lfloor>y\<rfloor>" using lt by linarith
    then show "- y < of_int (- \<lfloor>y\<rfloor> - 1) + 1" by simp
  qed
  show ?thesis unfolding nearest_even_def f using lt by (auto; linarith)
qed

lemma nearest_even_between: "of_int k \<le> y \<Longrightarrow> y < of_int k + 1/2 \<Longrightarrow> nearest_even y = k"
proof -
  assume a: "of_int k \<le> y" "y < of_int k + 1/2"
  have "\<lfloor>y\<rfloor> = k" by (rule floor_unique) (use a in auto)
  then show ?thesis using a by (simp add: nearest_even_def)
qed

lemma quantum_pos [simp]: "0 < quantum p emin x"
  by (simp add: quantum_def)

lemma quantum_abs: "quantum p emin (- x) = quantum p emin x"
  by (simp add: quantum_def)

lemma round_to_minus: "round_to p emin (- x) = - round_to p emin x"
  by (simp add: round_to_def quantum_abs nearest_even_minus)

lemma round_to_error: "\<bar>round_to p emin x - x\<bar> \<le> quantum p emin x / 2"
proof (cases "x = 0")
  case True
  then show ?thesis by (simp add: round_to_def less_imp_le)
next
  case False
  define q where "q = quantum p emin x"
  define n where "n = nearest_even (x / q)"
  have q: "0 < q" by (simp add: q_def)
  have "\<bar>of_int n - x / q\<bar> \<le> 1/2" unfolding n_def by (rule nearest_even_error)
  then have "\<bar>of_int n - x / q\<bar> * q \<le> 1/2 * q"
    using q by (intro mult_right_mono) auto
  moreover have "\<bar>of_int n - x / q\<bar> * q = \<bar>(of_int n - x / q) * q\<bar>"
    using q by (simp add: abs_mult)
  moreover have "(of_int n - x / q) * q = of_int n * q - x"
    using q by (simp add: left_diff_distrib)
  ultimately have e: "\<bar>of_int n * q - x\<bar> \<le> q / 2" by simp
  have "round_to p emin x = of_int n * q" using False by (simp add: round_to_def q_def n_def)
  then show ?thesis using e by (simp add: q_def)
qed

lemma quantum_in_binade:
  assumes "two_to k \<le> \<bar>x\<bar>" and "\<bar>x\<bar> < two_to (k + 1)" and "emin \<le> k"
  shows "quantum p emin x = two_to (k - int p + 1)"
  using binade_unique [OF assms(1,2)] assms(3) by (simp add: quantum_def max_def)

lemma quantum_bound:
  assumes "x \<noteq> 0"
  shows "quantum p emin x \<le> \<bar>x\<bar> * two_to (1 - int p) + two_to (emin - int p + 1)"
proof (cases "emin \<le> \<lfloor>log 2 \<bar>x\<bar>\<rfloor>")
  case True
  then have "quantum p emin x = two_to (\<lfloor>log 2 \<bar>x\<bar>\<rfloor> + (1 - int p))"
    by (simp add: quantum_def max_def algebra_simps)
  also have "\<dots> = two_to \<lfloor>log 2 \<bar>x\<bar>\<rfloor> * two_to (1 - int p)" by (rule two_to_add)
  also have "\<dots> \<le> \<bar>x\<bar> * two_to (1 - int p)"
    using binade(1) [OF assms] by (intro mult_right_mono) (auto simp: less_imp_le)
  finally show ?thesis using two_to_pos [of "emin - int p + 1"] by linarith
next
  case False
  then have "max \<lfloor>log 2 \<bar>x\<bar>\<rfloor> emin = emin" by (simp add: max_def)
  then have "quantum p emin x = two_to (emin - int p + 1)" by (simp add: quantum_def)
  moreover have "0 \<le> \<bar>x\<bar> * two_to (1 - int p)" by (simp add: less_imp_le)
  ultimately show ?thesis by linarith
qed

lemma quantum_normal:
  assumes "two_to emin \<le> \<bar>x\<bar>"
  shows "quantum p emin x \<le> \<bar>x\<bar> * two_to (1 - int p)"
proof -
  have x: "x \<noteq> 0"
  proof
    assume "x = 0"
    with assms have "two_to emin \<le> 0" by simp
    then show False using two_to_pos [of emin] by linarith
  qed
  have "emin \<le> \<lfloor>log 2 \<bar>x\<bar>\<rfloor>"
  proof (rule ccontr)
    assume "\<not> emin \<le> \<lfloor>log 2 \<bar>x\<bar>\<rfloor>"
    then have "\<lfloor>log 2 \<bar>x\<bar>\<rfloor> + 1 \<le> emin" by simp
    then have "two_to (\<lfloor>log 2 \<bar>x\<bar>\<rfloor> + 1) \<le> two_to emin" by (rule two_to_mono)
    then show False using binade(2) [OF x] assms by linarith
  qed
  then have "quantum p emin x = two_to (\<lfloor>log 2 \<bar>x\<bar>\<rfloor> + (1 - int p))"
    by (simp add: quantum_def max_def algebra_simps)
  also have "\<dots> = two_to \<lfloor>log 2 \<bar>x\<bar>\<rfloor> * two_to (1 - int p)" by (rule two_to_add)
  also have "\<dots> \<le> \<bar>x\<bar> * two_to (1 - int p)"
    using binade(1) [OF x] by (intro mult_right_mono) (auto simp: less_imp_le)
  finally show ?thesis .
qed

lemma two_to_half: "two_to (1 - int p) / 2 = two_to (- int p)"
proof -
  have "two_to (1 - int p) = two_to 1 * two_to (- int p)"
    using two_to_add [of 1 "- int p"] by simp
  moreover have "two_to 1 = 2" by (simp add: two_to_def)
  ultimately show ?thesis by simp
qed

lemma round_to_relative:
  assumes "two_to emin \<le> \<bar>x\<bar>"
  shows "\<bar>round_to p emin x - x\<bar> \<le> \<bar>x\<bar> * two_to (- int p)"
proof -
  have "\<bar>x\<bar> * two_to (1 - int p) / 2 = \<bar>x\<bar> * two_to (- int p)"
    using two_to_half [of p] by simp
  then show ?thesis
    using round_to_error [of p emin x] quantum_normal [OF assms, of p] by linarith
qed

lemma round_to_absolute:
  "\<bar>round_to p emin x - x\<bar> \<le> \<bar>x\<bar> * two_to (- int p) + two_to (emin - int p)"
proof (cases "x = 0")
  case True
  then show ?thesis by (simp add: round_to_def less_imp_le)
next
  case False
  have "\<bar>x\<bar> * two_to (1 - int p) / 2 = \<bar>x\<bar> * two_to (- int p)"
    using two_to_half [of p] by simp
  moreover have "two_to (emin - int p + 1) / 2 = two_to (emin - int p)"
  proof -
    have "two_to (emin - int p + 1) = two_to (emin - int p) * two_to 1" by (rule two_to_add)
    moreover have "two_to 1 = 2" by (simp add: two_to_def)
    ultimately show ?thesis by simp
  qed
  ultimately show ?thesis
    using round_to_error [of p emin x] quantum_bound [OF False, of p emin] by linarith
qed

lemma round_to_two_to:
  assumes "emin \<le> k" and "0 < p"
  shows "round_to p emin (two_to k) = two_to k"
proof -
  have a: "\<bar>two_to k\<bar> = two_to k" by (simp add: less_imp_le)
  define q where "q = two_to (k - int p + 1)"
  have q: "quantum p emin (two_to k) = q" unfolding q_def
    by (rule quantum_in_binade [of k]) (simp_all add: a two_to_less assms)
  have q0: "0 < q" by (simp add: q_def)
  have "int (p - 1) = int p - 1" using assms(2) by simp
  then have i: "two_to (int p - 1) = of_int (2 ^ (p - 1))" using two_to_nat [of "p - 1"] by simp
  have k: "two_to k = of_int (2 ^ (p - 1)) * q"
    using two_to_add [of "int p - 1" "k - int p + 1"] by (simp add: q_def i)
  then have "two_to k / q = of_int (2 ^ (p - 1))" using q0 by simp
  then have "nearest_even (two_to k / q) = 2 ^ (p - 1)" by (simp only: nearest_even_int)
  then have "round_to p emin (two_to k) = of_int (2 ^ (p - 1)) * q"
    using two_to_pos [of k] by (simp add: round_to_def q)
  then show ?thesis using k by simp
qed

lemma nearest_even_nonneg: "0 \<le> y \<Longrightarrow> 0 \<le> nearest_even y"
  using nearest_even_mono [of 0 y] nearest_even_int [of 0] by simp

lemma round_to_nonneg: "0 \<le> x \<Longrightarrow> 0 \<le> round_to p emin x"
  by (simp add: round_to_def nearest_even_nonneg less_imp_le)

lemma round_to_abs: "\<bar>round_to p emin x\<bar> = round_to p emin \<bar>x\<bar>"
proof (cases "0 \<le> x")
  case True
  then show ?thesis using round_to_nonneg [of x p emin] by simp
next
  case False
  then have "0 \<le> - x" by simp
  then have "0 \<le> round_to p emin (- x)" by (rule round_to_nonneg)
  then show ?thesis using False by (simp add: round_to_minus)
qed

lemma two_to_m53: "two_to (- 53) = 1 / 9007199254740992"
  using two_to_neg [of 53] by simp

lemma two_to_m24: "two_to (- 24) = 1 / 16777216"
  using two_to_neg [of 24] by simp

lemma two_to_m1: "two_to (- 1) = 1 / 2"
  using two_to_neg [of 1] by simp

lemma two_to_m60: "two_to (- 60) = 1 / 1152921504606846976"
  using two_to_neg [of 60] by simp

lemma float32_range:
  assumes "to_float32 p = Fin p" and "0 < p"
  shows "two_to (- 149) \<le> p" and "p < two_to 128"
proof -
  have r: "round_to 24 (- 126) p = p" and nov: "\<not> two_to 128 \<le> \<bar>round_to 24 (- 126) p\<bar>"
    using assms(1) by (auto simp: to_float32_def to_format_def split: if_splits)
  show "p < two_to 128" using nov r assms(2) by simp
  define q where "q = quantum 24 (- 126) p"
  define n where "n = nearest_even (p / q)"
  have q0: "0 < q" by (simp add: q_def)
  have pn: "p = of_int n * q" using r assms(2) by (simp add: round_to_def q_def n_def)
  with assms(2) have "0 < of_int n * q" by simp
  then have "0 < n" using q0 by (simp add: zero_less_mult_iff)
  then have "1 \<le> (of_int n :: real)" by simp
  then have "1 * q \<le> of_int n * q" using q0 by (intro mult_right_mono) auto
  moreover have "two_to (- 149) \<le> q" unfolding q_def quantum_def by (rule two_to_mono) simp
  ultimately show "two_to (- 149) \<le> p" using pn by simp
qed

lemma target_bounds:
  "0.95 * (1 - two_to (- 53)) \<le> round_to 53 (- 1022) 0.95"
  "round_to 53 (- 1022) 0.95 \<le> 0.95 * (1 + two_to (- 53))"
proof -
  define d where "d = round_to 53 (- 1022) 0.95"
  define t where "t = 0.95 * two_to (- 53)"
  have "two_to (- 1022) \<le> two_to (- 1)" by (rule two_to_mono) simp
  then have "two_to (- 1022) \<le> \<bar>0.95 :: real\<bar>" by (simp add: two_to_m1)
  from round_to_relative [OF this, of 53]
  have "\<bar>d - 0.95\<bar> \<le> t" by (simp add: d_def t_def)
  then have "0.95 - t \<le> d" and "d \<le> 0.95 + t" by linarith+
  then show "0.95 * (1 - two_to (- 53)) \<le> round_to 53 (- 1022) 0.95"
    and "round_to 53 (- 1022) 0.95 \<le> 0.95 * (1 + two_to (- 53))"
    by (simp_all add: d_def t_def algebra_simps)
qed

lemma gain_bounds:
  assumes "two_to (- 149) \<le> p" and "p < two_to 128"
  defines "g \<equiv> round_to 53 (- 1022) (round_to 53 (- 1022) 0.95 / p)"
  shows "0.95 * (1 - two_to (- 53)) * (1 - two_to (- 53)) \<le> p * g"
    and "p * g \<le> 0.95 * (1 + two_to (- 53)) * (1 + two_to (- 53))"
    and "g < two_to 1024"
proof -
  define e where "e = two_to (- 53)"
  define d where "d = round_to 53 (- 1022) 0.95"
  define q where "q = d / p"
  have e: "e = 1 / 9007199254740992" by (simp add: e_def two_to_m53)
  have p0: "0 < p" using assms(1) two_to_pos [of "- 149"] by linarith
  have d1: "0.95 * (1 - e) \<le> d" and d2: "d \<le> 0.95 * (1 + e)"
    unfolding d_def e_def by (rule target_bounds)+
  have dh: "1 / 2 \<le> d" using d1 by (simp add: e)
  have d3: "d \<le> 1" using d2 by (simp add: e)
  have pq: "p * q = d" using p0 by (simp add: q_def)
  have "two_to (- 129) * p \<le> two_to (- 129) * two_to 128"
    using assms(2) by (intro mult_left_mono) (auto simp: less_imp_le)
  also have "\<dots> = two_to (- 1)" using two_to_add [of "- 129" 128] by simp
  finally have "two_to (- 129) * p \<le> d" using dh by (simp add: two_to_m1)
  then have "two_to (- 129) \<le> q" using p0 by (simp add: pos_le_divide_eq q_def)
  moreover have "two_to (- 1022) \<le> two_to (- 129)" by (rule two_to_mono) simp
  ultimately have n: "two_to (- 1022) \<le> q" by linarith
  have q0: "0 < q" using n two_to_pos [of "- 1022"] by linarith
  then have "two_to (- 1022) \<le> \<bar>q\<bar>" using n by linarith
  from round_to_relative [OF this, of 53]
  have "\<bar>g - q\<bar> \<le> \<bar>q\<bar> * e" by (simp add: g_def d_def e_def q_def)
  moreover have "\<bar>q\<bar> = q" using q0 by simp
  ultimately have "q - q * e \<le> g" and "g \<le> q + q * e" by linarith+
  then have g1: "q * (1 - e) \<le> g" and g2: "g \<le> q * (1 + e)"
    by (simp_all add: algebra_simps)
  have "p * (q * (1 - e)) \<le> p * g" using g1 p0 by (intro mult_left_mono) auto
  then have v1: "d * (1 - e) \<le> p * g" using pq by (simp add: mult.assoc [symmetric])
  have "p * g \<le> p * (q * (1 + e))" using g2 p0 by (intro mult_left_mono) auto
  then have v2: "p * g \<le> d * (1 + e)" using pq by (simp add: mult.assoc [symmetric])
  have "0.95 * (1 - e) * (1 - e) \<le> d * (1 - e)"
    using d1 by (intro mult_right_mono) (auto simp: e)
  then show "0.95 * (1 - two_to (- 53)) * (1 - two_to (- 53)) \<le> p * g"
    using v1 unfolding e_def by linarith
  have "d * (1 + e) \<le> 0.95 * (1 + e) * (1 + e)"
    using d2 by (intro mult_right_mono) (auto simp: e)
  then show "p * g \<le> 0.95 * (1 + two_to (- 53)) * (1 + two_to (- 53))"
    using v2 unfolding e_def by linarith
  have "1 = two_to 149 * two_to (- 149)" using two_to_add [of 149 "- 149"] by simp
  also have "\<dots> \<le> two_to 149 * p" using assms(1) by (intro mult_left_mono) (auto simp: less_imp_le)
  finally have "d \<le> two_to 149 * p" using d3 by linarith
  then have "q \<le> two_to 149" using p0 by (simp add: pos_divide_le_eq q_def)
  moreover have "q * (1 + e) \<le> q * 2" using q0 by (intro mult_left_mono) (auto simp: e)
  ultimately have "g \<le> two_to 149 * 2" using g2 by linarith
  also have "\<dots> = two_to 150" using two_to_add [of 149 1] by (simp add: two_to_def)
  also have "\<dots> < two_to 1024" by (rule two_to_less) simp
  finally show "g < two_to 1024" .
qed

lemma two_to_1024_big: "2 \<le> two_to 1024"
proof -
  have "two_to 1 \<le> two_to 1024" by (rule two_to_mono) simp
  then show ?thesis by (simp add: two_to_def)
qed

lemma two_to_128_big: "2 \<le> two_to 128"
proof -
  have "two_to 1 \<le> two_to 128" by (rule two_to_mono) simp
  then show ?thesis by (simp add: two_to_def)
qed

lemma double_product_bounds:
  assumes "two_to (- 149) \<le> p" and "p < two_to 128"
  defines "g \<equiv> round_to 53 (- 1022) (round_to 53 (- 1022) 0.95 / p)"
  shows "0 \<le> a \<Longrightarrow> a \<le> p \<Longrightarrow> round_to 53 (- 1022) (a * g) \<le> 0.95 * (1 + two_to (- 50))"
    and "0.95 * (1 - two_to (- 50)) \<le> round_to 53 (- 1022) (p * g)"
    and "0 < g"
proof -
  define e where "e = two_to (- 53)"
  have e: "e = 1 / 9007199254740992" by (simp add: e_def two_to_m53)
  have e50: "two_to (- 50) = 1 / 1125899906842624" using two_to_neg [of 50] by simp
  have p0: "0 < p" using assms(1) two_to_pos [of "- 149"] by linarith
  have v1: "0.95 * (1 - e) * (1 - e) \<le> p * g" and v2: "p * g \<le> 0.95 * (1 + e) * (1 + e)"
    unfolding e_def g_def by (rule gain_bounds [OF assms(1,2)])+
  have vh: "1 / 2 \<le> p * g" using v1 by (simp add: e)
  then have "0 < p * g" by linarith
  then show g0: "0 < g" using p0 by (simp add: zero_less_mult_iff)
  have "two_to (- 1022) \<le> two_to (- 1)" by (rule two_to_mono) simp
  then have "two_to (- 1022) \<le> \<bar>p * g\<bar>" using vh by (simp add: two_to_m1)
  from round_to_relative [OF this, of 53]
  have "\<bar>round_to 53 (- 1022) (p * g) - p * g\<bar> \<le> \<bar>p * g\<bar> * e" by (simp add: e_def)
  moreover have "\<bar>p * g\<bar> = p * g" using vh by simp
  ultimately have "p * g - p * g * e \<le> round_to 53 (- 1022) (p * g)" by linarith
  then have "p * g * (1 - e) \<le> round_to 53 (- 1022) (p * g)" by (simp add: algebra_simps)
  moreover have "0.95 * (1 - e) * (1 - e) * (1 - e) \<le> p * g * (1 - e)"
    using v1 by (intro mult_right_mono) (auto simp: e)
  moreover have "0.95 * (1 - two_to (- 50)) \<le> 0.95 * (1 - e) * (1 - e) * (1 - e)"
    by (simp add: e e50)
  ultimately show "0.95 * (1 - two_to (- 50)) \<le> round_to 53 (- 1022) (p * g)" by linarith
  assume a: "0 \<le> a" "a \<le> p"
  have w0: "0 \<le> a * g" using a(1) g0 by simp
  have "a * g \<le> p * g" using a(2) g0 by (intro mult_right_mono) auto
  then have w1: "a * g \<le> 0.95 * (1 + e) * (1 + e)" using v2 by linarith
  have "two_to (- 1022 - int 53) \<le> two_to (- 60)" by (rule two_to_mono) simp
  then have t: "two_to (- 1022 - int 53) \<le> 1 / 1152921504606846976" by (simp add: two_to_m60)
  have "\<bar>round_to 53 (- 1022) (a * g) - a * g\<bar> \<le> \<bar>a * g\<bar> * e + two_to (- 1022 - int 53)"
    unfolding e_def using round_to_absolute [of 53 "- 1022" "a * g"] by simp
  moreover have "\<bar>a * g\<bar> = a * g" using w0 by simp
  ultimately have "round_to 53 (- 1022) (a * g) \<le> a * g + a * g * e + 1 / 1152921504606846976"
    using t by linarith
  moreover have "a * g * (1 + e) \<le> 0.95 * (1 + e) * (1 + e) * (1 + e)"
    using w1 by (intro mult_right_mono) (auto simp: e)
  then have "a * g + a * g * e \<le> 0.95 * (1 + e) * (1 + e) * (1 + e)" by (simp add: algebra_simps)
  moreover have "0.95 * (1 + e) * (1 + e) * (1 + e) + 1 / 1152921504606846976 \<le> 0.95 * (1 + two_to (- 50))"
    by (simp add: e e50)
  ultimately show "round_to 53 (- 1022) (a * g) \<le> 0.95 * (1 + two_to (- 50))" by linarith
qed

lemma float32_near_target:
  assumes "0 \<le> z" and "z \<le> 0.95 * (1 + two_to (- 50))"
  shows "round_to 24 (- 126) z \<le> 15938355 / 16777216"
    and "0.95 * (1 - two_to (- 50)) \<le> z \<Longrightarrow> round_to 24 (- 126) z = 15938355 / 16777216"
proof -
  have e50: "two_to (- 50) = 1 / 1125899906842624" using two_to_neg [of 50] by simp
  have hi: "z * 16777216 < 15938355 + 1 / 2" using assms(2) by (simp add: e50)
  have z1: "z < 1" using assms(2) by (simp add: e50)
  have norm: "round_to 24 (- 126) z = of_int (nearest_even (z * 16777216)) / 16777216" if "1 / 2 \<le> z"
  proof -
    have "two_to (- 1) \<le> \<bar>z\<bar>" using that by (simp add: two_to_m1)
    moreover have "\<bar>z\<bar> < two_to (- 1 + 1)" using z1 assms(1) by simp
    ultimately have "quantum 24 (- 126) z = two_to (- 1 - int 24 + 1)"
      by (rule quantum_in_binade) simp
    then have q: "quantum 24 (- 126) z = 1 / 16777216" by (simp add: two_to_m24)
    have "z \<noteq> 0" using that by auto
    then show ?thesis unfolding round_to_def q by simp
  qed
  show "round_to 24 (- 126) z \<le> 15938355 / 16777216"
  proof (cases "1 / 2 \<le> z")
    case True
    have "z * 16777216 \<le> of_int 15938355 + 3 / 10" using assms(2) by (simp add: e50)
    then have "nearest_even (z * 16777216) \<le> nearest_even (of_int 15938355 + 3 / 10)"
      by (rule nearest_even_mono)
    also have "nearest_even (of_int 15938355 + 3 / 10) = 15938355"
      by (rule nearest_even_between) simp_all
    finally have "(of_int (nearest_even (z * 16777216)) :: real) \<le> of_int 15938355"
      by (simp only: of_int_le_iff)
    then show ?thesis using norm [OF True] by simp
  next
    case False
    have "two_to (- 126 - int 24) \<le> two_to (- 60)" by (rule two_to_mono) simp
    then have t: "two_to (- 126 - int 24) \<le> 1 / 1152921504606846976" by (simp add: two_to_m60)
    have "\<bar>round_to 24 (- 126) z - z\<bar> \<le> \<bar>z\<bar> * two_to (- 24) + two_to (- 126 - int 24)"
      using round_to_absolute [of 24 "- 126" z] by simp
    moreover have "\<bar>z\<bar> = z" using assms(1) by simp
    ultimately have "round_to 24 (- 126) z \<le> z + z / 16777216 + 1 / 1152921504606846976"
      using t by (simp add: two_to_m24)
    then show ?thesis using False by simp
  qed
  assume lo: "0.95 * (1 - two_to (- 50)) \<le> z"
  then have h: "1 / 2 \<le> z" by (simp add: e50)
  have "of_int 15938355 \<le> z * 16777216" using lo by (simp add: e50)
  moreover have "z * 16777216 < of_int 15938355 + 1 / 2" using hi by simp
  ultimately have "nearest_even (z * 16777216) = 15938355" by (rule nearest_even_between)
  then show "round_to 24 (- 126) z = 15938355 / 16777216" using norm [OF h] by simp
qed

lemma to_double_value:
  "\<bar>round_to 53 (- 1022) x\<bar> < two_to 1024 \<Longrightarrow> to_double x = Fin (round_to 53 (- 1022) x)"
  by (simp add: to_double_def to_format_def)

lemma to_float32_value:
  "\<bar>round_to 24 (- 126) x\<bar> < two_to 128 \<Longrightarrow> to_float32 x = Fin (round_to 24 (- 126) x)"
  by (simp add: to_float32_def to_format_def)

lemma to_double_0 [simp]: "to_double 0 = Fin 0"
  by (simp add: to_double_def to_format_def round_to_def not_le)

lemma to_float32_0 [simp]: "to_float32 0 = Fin 0"
  by (simp add: to_float32_def to_format_def round_to_def not_le)

lemma to_float32_two_to:
  assumes "- 126 \<le> k" and "k < 128"
  shows "to_float32 (two_to k) = Fin (two_to k)" and "to_float32 (- two_to k) = Fin (- two_to k)"
proof -
  have r: "round_to 24 (- 126) (two_to k) = two_to k" using assms(1) by (intro round_to_two_to) auto
  have "two_to k < two_to 128" using assms(2) by (rule two_to_less)
  then show "to_float32 (two_to k) = Fin (two_to k)"
    using to_float32_value [of "two_to k"] by (simp add: r less_imp_le)
  have "\<bar>round_to 24 (- 126) (- two_to k)\<bar> < two_to 128"
    using \<open>two_to k < two_to 128\<close> by (simp add: round_to_minus r less_imp_le)
  then show "to_float32 (- two_to k) = Fin (- two_to k)"
    using to_float32_value [of "- two_to k"] by (simp add: round_to_minus r)
qed

lemma target_value: "to_double 0.95 = Fin (round_to 53 (- 1022) 0.95)"
proof -
  have "round_to 53 (- 1022) 0.95 \<le> 1" using target_bounds(2) by (simp add: two_to_m53)
  moreover have "0 \<le> round_to 53 (- 1022) (0.95 :: real)" by (rule round_to_nonneg) simp
  ultimately have "\<bar>round_to 53 (- 1022) 0.95\<bar> < two_to 1024" using two_to_1024_big by linarith
  then show ?thesis by (rule to_double_value)
qed

text \<open>The gain for a peak \<open>p\<close> that a \<open>Float32Array\<close> can hold.\<close>

lemma gain_value:
  assumes "two_to (- 149) \<le> p" and "p < two_to 128"
  shows "n_divide (to_double 0.95) (Fin p) = Fin (round_to 53 (- 1022) (round_to 53 (- 1022) 0.95 / p))"
proof -
  define g where "g = round_to 53 (- 1022) (round_to 53 (- 1022) 0.95 / p)"
  have p0: "0 < p" using assms(1) two_to_pos [of "- 149"] by linarith
  have "0 < g" unfolding g_def by (rule double_product_bounds(3) [OF assms])
  moreover have "g < two_to 1024" unfolding g_def by (rule gain_bounds(3) [OF assms])
  ultimately have "\<bar>g\<bar> < two_to 1024" by simp
  then have "to_double (round_to 53 (- 1022) 0.95 / p) = Fin g"
    unfolding g_def by (rule to_double_value)
  moreover have "n_divide (to_double 0.95) (Fin p) = to_double (round_to 53 (- 1022) 0.95 / p)"
    unfolding target_value using p0 by simp
  ultimately show ?thesis by (simp add: g_def)
qed

lemma gain_error:
  assumes "two_to (- 149) \<le> p" and "p < two_to 128"
  shows "\<bar>round_to 53 (- 1022) (round_to 53 (- 1022) 0.95 / p) - 0.95 / p\<bar> \<le> 0.95 / p / 2 ^ 51"
proof -
  define g where "g = round_to 53 (- 1022) (round_to 53 (- 1022) 0.95 / p)"
  define e :: real where "e = two_to (- 53)"
  have e: "e = 1 / 9007199254740992" by (simp add: e_def two_to_m53)
  have p0: "0 < p" using assms(1) two_to_pos [of "- 149"] by linarith
  have v1: "0.95 * (1 - e) * (1 - e) \<le> p * g" and v2: "p * g \<le> 0.95 * (1 + e) * (1 + e)"
    unfolding e_def g_def by (rule gain_bounds [OF assms])+
  have "0.95 - 0.95 / 2 ^ 51 \<le> 0.95 * (1 - e) * (1 - e)" by (simp add: e)
  moreover have "0.95 * (1 + e) * (1 + e) \<le> 0.95 + 0.95 / 2 ^ 51" by (simp add: e)
  ultimately have "\<bar>p * g - 0.95\<bar> \<le> 0.95 / 2 ^ 51" using v1 v2 by linarith
  then have "\<bar>p * g - 0.95\<bar> / p \<le> 0.95 / 2 ^ 51 / p" using p0 by (intro divide_right_mono) auto
  moreover have "\<bar>p * g - 0.95\<bar> / p = \<bar>g - 0.95 / p\<bar>"
  proof -
    have "\<bar>p * g - 0.95\<bar> / p = \<bar>(p * g - 0.95) / p\<bar>" using p0 by simp
    also have "(p * g - 0.95) / p = g - 0.95 / p" using p0 by (simp add: diff_divide_distrib)
    finally show ?thesis .
  qed
  ultimately show ?thesis by (simp add: g_def)
qed

text \<open>One sample \<open>r\<close> under that gain: scaled in binary64, stored in binary32.\<close>

lemma sample_scaled:
  assumes "two_to (- 149) \<le> p" and "p < two_to 128" and "\<bar>r\<bar> \<le> p"
  defines "g \<equiv> round_to 53 (- 1022) (round_to 53 (- 1022) 0.95 / p)"
  shows "\<exists>y. fround (n_times (Fin r) (Fin g)) = Fin y \<and> \<bar>y\<bar> \<le> 15938355 / 16777216
             \<and> (\<bar>r\<bar> = p \<longrightarrow> \<bar>y\<bar> = 15938355 / 16777216)"
proof -
  define z where "z = round_to 53 (- 1022) (r * g)"
  define y where "y = round_to 24 (- 126) z"
  have e50: "two_to (- 50) = 1 / 1125899906842624" using two_to_neg [of 50] by simp
  have g0: "0 < g" unfolding g_def by (rule double_product_bounds(3) [OF assms(1,2)])
  have az: "\<bar>z\<bar> = round_to 53 (- 1022) (\<bar>r\<bar> * g)"
    using g0 by (simp add: z_def round_to_abs abs_mult)
  have z0: "0 \<le> \<bar>z\<bar>" by simp
  have zh: "\<bar>z\<bar> \<le> 0.95 * (1 + two_to (- 50))"
    unfolding az g_def by (rule double_product_bounds(1) [OF assms(1,2)]) (use assms(3) in auto)
  then have "\<bar>z\<bar> \<le> 1" by (simp add: e50)
  then have "\<bar>z\<bar> < two_to 1024" using two_to_1024_big by linarith
  then have t: "n_times (Fin r) (Fin g) = Fin z" using to_double_value [of "r * g"] by (simp add: z_def)
  have ay: "\<bar>y\<bar> = round_to 24 (- 126) \<bar>z\<bar>" by (simp add: y_def round_to_abs)
  have yh: "\<bar>y\<bar> \<le> 15938355 / 16777216" unfolding ay by (rule float32_near_target(1) [OF z0 zh])
  then have "\<bar>y\<bar> < two_to 128" using two_to_128_big by linarith
  then have f: "fround (Fin z) = Fin y" using to_float32_value [of z] by (simp add: y_def)
  have "\<bar>y\<bar> = 15938355 / 16777216" if "\<bar>r\<bar> = p"
  proof -
    have "0.95 * (1 - two_to (- 50)) \<le> \<bar>z\<bar>"
      unfolding az that g_def by (rule double_product_bounds(2) [OF assms(1,2)])
    then show ?thesis unfolding ay by (rule float32_near_target(2) [OF z0 zh])
  qed
  then show ?thesis using t f yh by auto
qed

section \<open>Normalization\<close>

lemma fst_peak_fold:
  "fst (fold (\<lambda>x (pk, sq). (if n_greater (n_abs x) pk then n_abs x else pk, n_plus sq (n_times x x))) xs (p, q))
     = fold (\<lambda>x pk. if n_greater (n_abs x) pk then n_abs x else pk) xs p"
  by (induction xs arbitrary: p q) auto

lemma fst_peak_and_sum: "fst (peak_and_sum xs) = stream_peak xs"
  by (simp add: peak_and_sum_def stream_peak_def fst_peak_fold)

lemma peak_fold_PInf: "fold (\<lambda>x pk. if n_greater (n_abs x) pk then n_abs x else pk) xs PInf = PInf"
  by (induction xs) simp_all

lemma peak_step_cases:
  "(if n_greater (n_abs x) (Fin q) then n_abs x else Fin q)
     = (case x of Fin r \<Rightarrow> Fin (max q \<bar>r\<bar>) | PInf \<Rightarrow> PInf | NInf \<Rightarrow> PInf | NaN \<Rightarrow> Fin q)"
  by (cases x) (auto simp: max_def)

lemma peak_fold_finite:
  "fold (\<lambda>x pk. if n_greater (n_abs x) pk then n_abs x else pk) xs (Fin q) = Fin p \<Longrightarrow>
     q \<le> p
     \<and> (\<forall>x \<in> set xs. x = NaN \<or> (\<exists>r. x = Fin r \<and> \<bar>r\<bar> \<le> p))
     \<and> (p = q \<or> (\<exists>x \<in> set xs. n_abs x = Fin p))"
proof (induction xs arbitrary: q)
  case Nil then show ?case by simp
next
  case (Cons x xs)
  show ?case
  proof (cases x)
    case (Fin r)
    with Cons.prems
    have "fold (\<lambda>x pk. if n_greater (n_abs x) pk then n_abs x else pk) xs (Fin (max q \<bar>r\<bar>)) = Fin p"
      by (simp only: fold_Cons o_apply peak_step_cases number.case)
    from Cons.IH [OF this] Fin show ?thesis by (auto simp: max_def split: if_splits)
  next
    case PInf
    with Cons.prems show ?thesis by (simp add: peak_fold_PInf)
  next
    case NInf
    with Cons.prems show ?thesis by (simp add: peak_fold_PInf)
  next
    case NaN
    with Cons.prems
    have "fold (\<lambda>x pk. if n_greater (n_abs x) pk then n_abs x else pk) xs (Fin q) = Fin p"
      by simp
    from Cons.IH [OF this] NaN show ?thesis by auto
  qed
qed

lemma stream_peak_finite:
  assumes "stream_peak xs = Fin p"
  shows "0 \<le> p" and "\<forall>x \<in> set xs. x = NaN \<or> (\<exists>r. x = Fin r \<and> \<bar>r\<bar> \<le> p)"
    and "0 < p \<Longrightarrow> \<exists>x \<in> set xs. n_abs x = Fin p"
  using peak_fold_finite [of xs 0 p] assms by (auto simp: stream_peak_def)

lemma stream_peak_zeros: "stream_peak (replicate n (Fin 0)) = Fin 0"
  by (induction n) (simp_all add: stream_peak_def)

lemma stream_normalize_zeros: "stream_normalize (replicate n (Fin 0)) = replicate n (Fin 0)"
  by (simp add: stream_normalize_def stream_gain_def stream_peak_zeros)

lemma stream_peak_example: "stream_peak [Fin (1/2), NaN, Fin (- 1)] = Fin 1"
  by (simp add: stream_peak_def)

lemma float32_examples: "is_float32 (Fin (1/2))" "is_float32 NaN" "is_float32 (Fin (- 1))"
  using to_float32_two_to(1) [of "- 1"] to_float32_two_to(2) [of 0]
  by (simp_all add: is_float32_def two_to_m1)

lemma afterRendering_outbox:
  assumes "i < length (pending s)" and "pending s ! i = Some resampledData" and "worker s"
  shows "outbox (afterRendering i s) = outbox s @ [Transcribe (Some (stream_normalize resampledData)) ''english'']"
  using assms by (simp add: afterRendering_def Let_def)

text \<open>
  C3. Take a buffer of \<open>Float32Array\<close> values whose peak \<open>p\<close> is finite and strictly
  positive. \<open>normalizeAudio\<close>, and the streaming variant when the rendering of the
  buffer settles, scale every sample by the one gain \<open>g\<close>, the binary64 quotient of the
  literal \<open>0.95\<close> and \<open>p\<close>, which differs from \<open>0.95 / p\<close> by a relative error of at
  most \<^verbatim>\<open>2^-51\<close>; every product is rounded to binary64 and stored as binary32. Some
  sample of the output then has the absolute value 15938355/16777216, the binary32 value
  next to 0.95 (0.94999998..., less than \<^verbatim>\<open>2^-25\<close> below 0.95), and no sample of the
  output exceeds it (a NaN sample stays NaN and exceeds nothing).
\<close>

theorem normalization_peak:
  assumes "\<forall>x \<in> set audioData. is_float32 x"
    and "stream_peak audioData = Fin p" and "0 < p"
    and "i < length (pending s)" and "pending s ! i = Some audioData" and "worker s"
  shows "\<exists>g. n_divide (to_double 0.95) (Fin p) = Fin g
           \<and> \<bar>g - 0.95 / p\<bar> \<le> 0.95 / p / 2 ^ 51
           \<and> fst (normalizeAudio audioData lgs)
               = \<lparr>normalizedData = map (\<lambda>x. fround (n_times x (Fin g))) audioData,
                  peak = Fin p, gain = Fin g\<rparr>
           \<and> outbox (step resample (RenderingSettled i) s)
               = outbox s @ [Transcribe (Some (map (\<lambda>x. fround (n_times x (Fin g))) audioData)) ''english'']
           \<and> (\<exists>x \<in> set audioData. n_abs (fround (n_times x (Fin g))) = Fin (15938355 / 16777216))
           \<and> (\<forall>x \<in> set audioData.
                 \<not> n_greater (n_abs (fround (n_times x (Fin g)))) (Fin (15938355 / 16777216)))
           \<and> \<bar>15938355 / 16777216 - 0.95\<bar> \<le> (1 / 2 ^ 25 :: real)
           \<and> (15938355 / 16777216 :: real) < 0.95"
proof -
  define g where "g = round_to 53 (- 1022) (round_to 53 (- 1022) 0.95 / p)"
  from stream_peak_finite(3) [OF assms(2,3)] obtain x0 where x0: "x0 \<in> set audioData" "n_abs x0 = Fin p"
    by blast
  from x0(2) obtain r0 where r0: "x0 = Fin r0" "\<bar>r0\<bar> = p" by (cases x0) auto
  have "is_float32 (Fin r0)" using assms(1) x0(1) r0(1) by auto
  then have "to_float32 r0 = Fin r0" by (simp add: is_float32_def)
  then have "to_float32 \<bar>r0\<bar> = Fin \<bar>r0\<bar>"
    by (cases "0 \<le> r0")
       (auto simp: to_float32_def to_format_def round_to_minus abs_if split: if_splits)
  then have fp: "to_float32 p = Fin p" using r0(2) by simp
  have lo: "two_to (- 149) \<le> p" and hi: "p < two_to 128"
    by (rule float32_range [OF fp assms(3)])+
  have gv: "n_divide (to_double 0.95) (Fin p) = Fin g"
    unfolding g_def by (rule gain_value [OF lo hi])
  have gv': "n_divide (to_double (19 / 20)) (Fin p) = Fin g" using gv by simp
  have ge: "\<bar>g - 0.95 / p\<bar> \<le> 0.95 / p / 2 ^ 51"
    unfolding g_def by (rule gain_error [OF lo hi])
  have pk: "fst (peak_and_sum audioData) = Fin p" using assms(2) by (simp add: fst_peak_and_sum)
  obtain sq where ps: "peak_and_sum audioData = (Fin p, sq)"
    using pk by (cases "peak_and_sum audioData") simp
  have na: "fst (normalizeAudio audioData lgs)
              = \<lparr>normalizedData = map (\<lambda>x. fround (n_times x (Fin g))) audioData,
                 peak = Fin p, gain = Fin g\<rparr>"
    using assms(3) by (simp add: normalizeAudio_def ps Let_def isFinite_def gv')
  have sg: "stream_gain audioData = Fin g" using assms(2,3) by (simp add: stream_gain_def gv')
  have sn: "stream_normalize audioData = map (\<lambda>x. fround (n_times x (Fin g))) audioData"
    by (simp add: stream_normalize_def sg)
  have ob: "outbox (step resample (RenderingSettled i) s)
              = outbox s @ [Transcribe (Some (map (\<lambda>x. fround (n_times x (Fin g))) audioData)) ''english'']"
    using afterRendering_outbox [OF assms(4,5,6)] by (simp add: step_def sn)
  have "\<bar>r0\<bar> \<le> p" using r0(2) by simp
  from sample_scaled [OF lo hi this] r0(2)
  have "n_abs (fround (n_times x0 (Fin g))) = Fin (15938355 / 16777216)"
    unfolding g_def [symmetric] r0(1) by auto
  then have ex: "\<exists>x \<in> set audioData. n_abs (fround (n_times x (Fin g))) = Fin (15938355 / 16777216)"
    using x0(1) by blast
  have all: "\<forall>x \<in> set audioData.
               \<not> n_greater (n_abs (fround (n_times x (Fin g)))) (Fin (15938355 / 16777216))"
  proof
    fix x assume "x \<in> set audioData"
    with stream_peak_finite(2) [OF assms(2)]
    have "x = NaN \<or> (\<exists>r. x = Fin r \<and> \<bar>r\<bar> \<le> p)" by blast
    then show "\<not> n_greater (n_abs (fround (n_times x (Fin g)))) (Fin (15938355 / 16777216))"
    proof
      assume "x = NaN" then show ?thesis by simp
    next
      assume "\<exists>r. x = Fin r \<and> \<bar>r\<bar> \<le> p"
      then obtain r where r: "x = Fin r" "\<bar>r\<bar> \<le> p" by blast
      from sample_scaled [OF lo hi r(2)] show ?thesis unfolding g_def [symmetric] r(1) by auto
    qed
  qed
  have tol: "\<bar>15938355 / 16777216 - 0.95\<bar> \<le> (1 / 2 ^ 25 :: real)" by simp
  have below: "(15938355 / 16777216 :: real) < 0.95" by simp
  show ?thesis using gv ge na ob ex all tol below by blast
qed

theorem normalization_peak_witness:
  "is_float32 (Fin (1/2)) \<and> is_float32 NaN \<and> is_float32 (Fin (- 1))
   \<and> stream_peak [Fin (1/2), NaN, Fin (- 1)] = Fin 1
   \<and> (\<exists>g. n_divide (to_double 0.95) (Fin 1) = Fin g
          \<and> \<bar>g - 0.95\<bar> \<le> 0.95 / 2 ^ 51
          \<and> normalizedData (fst (normalizeAudio [Fin (1/2), NaN, Fin (- 1)] []))
              = [fround (n_times (Fin (1/2)) (Fin g)), NaN, fround (n_times (Fin (- 1)) (Fin g))]
          \<and> outbox (step same_rate (RenderingSettled 0) (mounted\<lparr>pending := [Some [Fin (1/2), NaN, Fin (- 1)]]\<rparr>))
              = [Configure,
                 Transcribe (Some [fround (n_times (Fin (1/2)) (Fin g)), NaN, fround (n_times (Fin (- 1)) (Fin g))])
                   ''english''])"
proof -
  have h: "\<forall>x \<in> set [Fin (1/2), NaN, Fin (- 1)]. is_float32 x" by (simp add: float32_examples)
  have m: "0 < length (pending (mounted\<lparr>pending := [Some [Fin (1/2), NaN, Fin (- 1)]]\<rparr>))"
    "pending (mounted\<lparr>pending := [Some [Fin (1/2), NaN, Fin (- 1)]]\<rparr>) ! 0 = Some [Fin (1/2), NaN, Fin (- 1)]"
    "worker (mounted\<lparr>pending := [Some [Fin (1/2), NaN, Fin (- 1)]]\<rparr>)"
    by (simp_all add: mounted_def)
  from normalization_peak [OF h stream_peak_example _ m, of "[]" same_rate]
  obtain g where g: "n_divide (to_double 0.95) (Fin 1) = Fin g" "\<bar>g - 0.95 / 1\<bar> \<le> 0.95 / 1 / 2 ^ 51"
    "fst (normalizeAudio [Fin (1/2), NaN, Fin (- 1)] [])
       = \<lparr>normalizedData = map (\<lambda>x. fround (n_times x (Fin g))) [Fin (1/2), NaN, Fin (- 1)],
          peak = Fin 1, gain = Fin g\<rparr>"
    "outbox (step same_rate (RenderingSettled 0) (mounted\<lparr>pending := [Some [Fin (1/2), NaN, Fin (- 1)]]\<rparr>))
       = outbox (mounted\<lparr>pending := [Some [Fin (1/2), NaN, Fin (- 1)]]\<rparr>)
         @ [Transcribe (Some (map (\<lambda>x. fround (n_times x (Fin g))) [Fin (1/2), NaN, Fin (- 1)])) ''english'']"
    by auto
  have "\<bar>g - 0.95\<bar> \<le> 0.95 / 2 ^ 51" using g(2) by simp
  moreover have "normalizedData (fst (normalizeAudio [Fin (1/2), NaN, Fin (- 1)] []))
              = [fround (n_times (Fin (1/2)) (Fin g)), NaN, fround (n_times (Fin (- 1)) (Fin g))]"
    unfolding g(3) by simp
  moreover have "outbox (step same_rate (RenderingSettled 0) (mounted\<lparr>pending := [Some [Fin (1/2), NaN, Fin (- 1)]]\<rparr>))
              = [Configure,
                 Transcribe (Some [fround (n_times (Fin (1/2)) (Fin g)), NaN, fround (n_times (Fin (- 1)) (Fin g))])
                   ''english'']"
    unfolding g(4) by (simp add: mounted_def)
  ultimately show ?thesis using g(1) float32_examples stream_peak_example by blast
qed

lemma normalizeAudio_silent:
  "normalizeAudio (replicate n (Fin 0)) lgs
     = (\<lparr>normalizedData = replicate n (Fin 0), peak = Fin 0, gain = Fin 1\<rparr>,
        addLog (Msg ''Audio peak is zero or invalid.'') Error lgs)"
proof -
  have pk: "fst (peak_and_sum (replicate n (Fin 0))) = Fin 0"
    by (simp add: fst_peak_and_sum stream_peak_zeros)
  obtain sq where ps: "peak_and_sum (replicate n (Fin 0)) = (Fin 0, sq)"
    using pk by (cases "peak_and_sum (replicate n (Fin 0))") simp
  show ?thesis by (simp add: normalizeAudio_def ps Let_def)
qed

lemma replicate_16:
  "replicate 16 x = [x,x,x,x,x,x,x,x,x,x,x,x,x,x,x,x]"
  by (simp add: numeral_eq_Suc)

lemma four_seconds_recorded:
  "run same_rate ([WorkerMessage Ready, StartRecording (Some 16000)] @ replicate 16 silent_frame) mounted
     = mounted\<lparr>isModelLoading := False, isModelLoaded := True, progress := 100,
         logs := [\<lparr>message = Msg ''Initializing worker thread...'', ltype = Info\<rparr>,
                  \<lparr>message = Msg ''Whisper model loaded and ready'', ltype = Success\<rparr>,
                  \<lparr>message = Msg ''Microphone access granted & streaming started'', ltype = Success\<rparr>],
         mediaStream := True, contextRate := Some 16000, handlerLoaded := True, isRecording := True,
         pending := [Some (replicate 65536 (Fin 0))]\<rparr>"
  by (simp add: replicate_16 run_def step_def silent_frame_def
      onmessage_streaming_def onmessage_def startRecording_def onaudioprocess_def
      normalizeAndSendAudio_def same_rate_def mounted_def CHUNK_DURATION_SEC_def addLog_def
      replicate_add [symmetric])

text \<open>
  C5. Four seconds of silence reach the streaming variant (model ready, microphone
  context at 16 kHz, the rendering of the chunk settled): the 65536 zeros are posted as
  they are, the only new log entry is the one that announces the sending, no error is
  set: the chunk is not flagged and no gain is reported. \<open>normalizeAudio\<close> on the same
  samples returns them with peak 0 and gain 1.0 and flags them by the error entry
  \<open>Audio peak is zero or invalid.\<close>
\<close>

theorem silent_chunk_not_flagged:
  "logs (run same_rate ([WorkerMessage Ready, StartRecording (Some 16000)] @ four_seconds) mounted)
     = [\<lparr>message = Msg ''Initializing worker thread...'', ltype = Info\<rparr>,
        \<lparr>message = Msg ''Whisper model loaded and ready'', ltype = Success\<rparr>,
        \<lparr>message = Msg ''Microphone access granted & streaming started'', ltype = Success\<rparr>,
        \<lparr>message = SendingChunkMsg 65536, ltype = Info\<rparr>]
   \<and> outbox (run same_rate ([WorkerMessage Ready, StartRecording (Some 16000)] @ four_seconds) mounted)
     = [Configure, Transcribe (Some (replicate 65536 (Fin 0))) ''english'']
   \<and> error (run same_rate ([WorkerMessage Ready, StartRecording (Some 16000)] @ four_seconds) mounted) = None
   \<and> normalizeAudio (replicate 65536 (Fin 0)) []
     = (\<lparr>normalizedData = replicate 65536 (Fin 0), peak = Fin 0, gain = Fin 1\<rparr>,
        [\<lparr>message = Msg ''Audio peak is zero or invalid.'', ltype = Error\<rparr>])"
proof -
  have "run same_rate ([WorkerMessage Ready, StartRecording (Some 16000)] @ four_seconds) mounted
          = step same_rate (RenderingSettled 0)
              (run same_rate ([WorkerMessage Ready, StartRecording (Some 16000)] @ replicate 16 silent_frame) mounted)"
    by (simp add: run_def four_seconds_def)
  then show ?thesis
    unfolding four_seconds_recorded
    by (simp add: step_def afterRendering_def stream_normalize_zeros mounted_def addLog_def
        normalizeAudio_silent)
qed

theorem silent_chunk_not_flagged_witness:
  "ltype (last (logs (run same_rate ([WorkerMessage Ready, StartRecording (Some 16000)] @ four_seconds) mounted)))
     = Info
   \<and> gain (fst (normalizeAudio (replicate 65536 (Fin 0)) [])) = Fin 1"
  using silent_chunk_not_flagged by simp

section \<open>The correction engine\<close>

text \<open>
  C9. The empty string comes back empty, with no Change: in particular step 7 adds no
  period to an empty result.
\<close>

theorem empty_input:
  "applyCorrections [] similarities = \<lparr>original = [], corrected = [], changes = []\<rparr>"
  by code_simp

text \<open>
  C10. The result of \<open>applyCorrections\<close> is the same for any two values of the
  \<open>similarities\<close> argument.
\<close>

theorem similarities_ignored: "applyCorrections text s1 = applyCorrections text s2"
  by (simp add: applyCorrections_def)

text \<open>
  C7. The one pass of \<^verbatim>\<open>/\b(\w+)\s+\1\b/gi\<close> goes on behind each match, so of three
  equal words in a row it merges the first two and leaves the third: the corrected text of
  \<open>we go go go\<close> still reads \<open>go go\<close>.
\<close>

theorem triple_word_left_doubled:
  "corrected (applyCorrections ''we go go go'' []) = ''We go go.''"
  by code_simp

section \<open>The transcript\<close>

text \<open>
  C2, as stated, fails on a message whose text is empty: the guard \<open>data.text\<close> is
  false, nothing is appended, and the transcript \<open>a\<close> stays \<open>a\<close> where the claim
  promises \<open>a\<close> followed by a space.
\<close>

theorem empty_text_not_appended:
  "transcription (onmessage (Complete (Obj (Some []))) hook_example) = ''a''
   \<and> claimed_transcript (transcription hook_example) (Obj (Some [])) = ''a ''"
  by (simp add: onmessage_def append_result_def claimed_transcript_def result_text_def
      hook_example_def trim_def)

text \<open>
  C2, amended. In \<open>useTranscribe.ts\<close> the previous transcript is always a prefix of the
  new one. A message with a non-empty text, or an array, appends as the claim says:
  previous transcript, a space if that is non-empty, the trimmed text. Any other message
  leaves the transcript as it is.
\<close>

theorem complete_appends:
  "prefix (transcription s) (transcription (onmessage (Complete d) s))
   \<and> (has_text d \<longrightarrow>
        transcription (onmessage (Complete d) s) = claimed_transcript (transcription s) d)
   \<and> (\<not> has_text d \<longrightarrow> transcription (onmessage (Complete d) s) = transcription s)"
  by (simp add: onmessage_def append_result_def claimed_transcript_def result_text_def has_text_def
      split: payload.splits option.splits)

theorem complete_appends_witness:
  "has_text (Obj (Some '' b '')) \<and> \<not> has_text Other
   \<and> transcription (onmessage (Complete (Obj (Some '' b ''))) hook_example) = ''a b''
   \<and> transcription (onmessage (Complete Other) hook_example) = ''a''"
  using complete_appends [of hook_example "Obj (Some '' b '')"] complete_appends [of hook_example Other]
  by (simp add: has_text_def claimed_transcript_def result_text_def hook_example_def trim_def is_ws_def)

text \<open>
  The streaming variant stores the text of the message in place of the transcript, against
  the architecture notes of the repository (the text is "appended to the transcription
  state").
\<close>

lemma streaming_complete_replaces:
  "transcription (onmessage_streaming (Complete (Obj (Some ''b''))) (mounted\<lparr>transcription := ''a''\<rparr>))
     = ''b''"
  by (simp add: onmessage_streaming_def store_result_def mounted_def trim_def is_ws_def)

section \<open>Dispatch of chunks\<close>












section \<open>The worker\<close>

text \<open>
  What the handler does get right: a \<open>transcribe\<close> without audio posts \<open>error\<close> with
  the reason \<open>No audio data provided\<close>, and a thrown \<open>Error\<close>, from loading the model
  or from the transcriber, is posted as \<open>error\<close> with its message.
\<close>

lemma worker_reports_Error_objects:
  "worker_onmessage eng (Transcribe None language) inst
        = ([ErrorEvent (Some ''No audio data provided'')], inst, Inr ())
   \<and> (snd (load_pipeline eng) = Throws (ErrorObject reason) \<longrightarrow>
        worker_onmessage eng Configure None
          = (map (\<lambda>(status, pr). Download status pr) (fst (load_pipeline eng))
               @ [ErrorEvent (Some reason)],
             None, Inr ())
        \<and> worker_onmessage eng (Transcribe (Some a) language) None
          = ([ErrorEvent (Some reason)], None, Inr ()))
   \<and> (transcriber eng p a (if language = [] then ''english'' else language)
          = Throws (ErrorObject reason) \<longrightarrow>
        worker_onmessage eng (Transcribe (Some a) language) (Some p)
          = ([ErrorEvent (Some reason)], Some p, Inr ()))"
  by (auto simp: worker_onmessage_def try_catch_def bind_def getInstance_def postMessage_def
        return_def throw_def of_outcome_def post_error_def Let_def
      split: to_worker.splits option.splits outcome.splits prod.splits sum.splits)

text \<open>
  C8 does not hold of the handler. When the transcriber throws a value that is no
  \<open>Error\<close> (a string, a number), the \<open>error\<close> message is posted without a reason: its
  \<open>data\<close> is \<open>undefined\<close>. When it throws \<open>null\<close> or \<open>undefined\<close>, the \<open>catch\<close>
  block throws in turn: nothing is posted and the handler ends in a \<open>TypeError\<close>. The
  same happens for a failed load on \<open>configure\<close>.
\<close>

theorem worker_error_without_reason:
  "worker_onmessage (failing_engine Messageless) (Transcribe (Some [Fin 0]) ''english'') (Some ())
     = ([ErrorEvent None], Some (), Inr ())
   \<and> worker_onmessage (failing_engine Nullish) (Transcribe (Some [Fin 0]) ''english'') (Some ())
     = ([], Some (), Inl TypeError)
   \<and> worker_onmessage (failing_engine Messageless) Configure None
     = ([Download ''progress'' (Some 50), ErrorEvent None], None, Inr ())
   \<and> worker_onmessage (failing_engine Nullish) Configure None
     = ([Download ''progress'' (Some 50)], None, Inl TypeError)"
  by (simp add: worker_onmessage_def try_catch_def bind_def getInstance_def postMessage_def
      return_def throw_def of_outcome_def post_error_def failing_engine_def)

section \<open>Matches and their offsets\<close>

lemma match_len_pos:
  "0 < match_len M b t \<Longrightarrow> M b t = Some (match_len M b t) \<and> match_len M b t \<le> length t"
  by (auto simp: match_len_def split: option.splits if_splits)

lemma last_take_nth: "0 < n \<Longrightarrow> n \<le> length s \<Longrightarrow> last (take n s) = s ! (n - 1)"
proof -
  assume a: "0 < n" "n \<le> length s"
  then have "take n s \<noteq> []" by auto
  then have "last (take n s) = take n s ! (length (take n s) - 1)" by (rule last_conv_nth)
  also have "\<dots> = s ! (n - 1)" using a by (simp add: min_def)
  finally show ?thesis .
qed

lemma segs_orig:
  "concat (map (\<lambda>g. case g of Keep c \<Rightarrow> [c] | Hit j b m \<Rightarrow> m) (segs M i prev s)) = s"
proof (induction M i prev s rule: segs.induct)
  case (1 M i prev s)
  show ?case
  proof (cases "0 < match_len M prev s")
    case True
    with "1.IH"(1) show ?thesis by (subst segs.simps) simp
  next
    case False
    show ?thesis
    proof (cases s)
      case Nil
      with False show ?thesis by (subst segs.simps) simp
    next
      case (Cons c cs)
      with False "1.IH"(2) show ?thesis by (subst segs.simps) simp
    qed
  qed
qed

lemma segs_hit:
  "Hit j b m \<in> set (segs M i prev s) \<Longrightarrow>
     i \<le> j \<and> j - i + length m \<le> length s \<and> m \<noteq> []
     \<and> b = (if j = i then prev else Some (s ! (j - i - 1)))
     \<and> M b (drop (j - i) s) = Some (length m)
     \<and> m = take (length m) (drop (j - i) s)"
proof (induction M i prev s arbitrary: j b m rule: segs.induct)
  case (1 M i prev s)
  let ?n = "match_len M prev s"
  show ?case
  proof (cases "0 < ?n")
    case True
    then have n: "M prev s = Some ?n" "?n \<le> length s" using match_len_pos by auto
    from "1.prems" True
    have "Hit j b m = Hit i prev (take ?n s)
          \<or> Hit j b m \<in> set (segs M (i + ?n) (Some (last (take ?n s))) (drop ?n s))"
      by (subst (asm) segs.simps) simp
    then show ?thesis
    proof
      assume "Hit j b m = Hit i prev (take ?n s)"
      then show ?thesis using True n by (auto simp: min_def)
    next
      assume h: "Hit j b m \<in> set (segs M (i + ?n) (Some (last (take ?n s))) (drop ?n s))"
      from "1.IH"(1) [OF True h]
      have ih: "i + ?n \<le> j" "j - (i + ?n) + length m \<le> length (drop ?n s)" "m \<noteq> []"
        "b = (if j = i + ?n then Some (last (take ?n s)) else Some (drop ?n s ! (j - (i + ?n) - 1)))"
        "M b (drop (j - (i + ?n)) (drop ?n s)) = Some (length m)"
        "m = take (length m) (drop (j - (i + ?n)) (drop ?n s))"
        by auto
      have d: "drop (j - (i + ?n)) (drop ?n s) = drop (j - i) s"
        using ih(1) by (simp add: add.commute)
      have l: "last (take ?n s) = s ! (?n - 1)"
        using True n(2) by (rule last_take_nth)
      have b: "b = Some (s ! (j - i - 1))"
      proof (cases "j = i + ?n")
        case True then show ?thesis using ih(4) l by simp
      next
        case False
        then have "?n + (j - (i + ?n) - 1) = j - i - 1" using ih(1) by arith
        moreover have "?n + (j - (i + ?n) - 1) \<le> length s" using ih(2) ih(1) n(2) by simp
        ultimately show ?thesis using ih(4) False n(2) by (simp add: nth_drop)
      qed
      have "j \<noteq> i" using ih(1) True by arith
      then show ?thesis using ih b d n(2) by auto
    qed
  next
    case False
    show ?thesis
    proof (cases s)
      case Nil
      with False "1.prems" show ?thesis by (subst (asm) segs.simps) simp
    next
      case (Cons c cs)
      with False "1.prems" have h: "Hit j b m \<in> set (segs M (Suc i) (Some c) cs)"
        by (subst (asm) segs.simps) simp
      from "1.IH"(2) [OF False Cons h]
      have ih: "Suc i \<le> j" "j - Suc i + length m \<le> length cs" "m \<noteq> []"
        "b = (if j = Suc i then Some c else Some (cs ! (j - Suc i - 1)))"
        "M b (drop (j - Suc i) cs) = Some (length m)"
        "m = take (length m) (drop (j - Suc i) cs)"
        by auto
      have d: "drop (j - Suc i) cs = drop (j - i) s"
        using ih(1) Cons by (simp add: Suc_diff_le drop_Cons')
      have b: "b = Some (s ! (j - i - 1))"
      proof (cases "j = Suc i")
        case True then show ?thesis using ih(4) Cons by simp
      next
        case False
        then have "j - i - 1 = Suc (j - Suc i - 1)" using ih(1) by arith
        then show ?thesis using ih(4) False Cons by simp
      qed
      have "j \<noteq> i" using ih(1) by arith
      then show ?thesis using ih b d Cons by auto
    qed
  qed
qed



















section \<open>The end of the corrected text\<close>

lemma visible_append: "visible (a @ b) = visible a @ visible b"
  by (simp add: visible_def)

lemma end_mark_append:
  "end_mark (a @ b) = (case end_mark b of None \<Rightarrow> end_mark a | Some x \<Rightarrow> Some x)"
  by (simp add: end_mark_def visible_append)

lemma end_mark_Cons:
  "end_mark (c # s) = (case end_mark s of None \<Rightarrow> end_mark [c] | Some x \<Rightarrow> Some x)"
  using end_mark_append [of "[c]" s] by simp

lemma visible_ws: "(\<forall>c \<in> set b. is_ws c) \<Longrightarrow> visible b = []"
  by (simp add: visible_def)

lemma visible_dropWhile: "visible (dropWhile is_ws s) = visible s"
  by (induction s) (simp_all add: visible_def)

lemma visible_rev: "visible (rev s) = rev (visible s)"
  by (simp add: visible_def rev_filter)

lemma visible_trim: "visible (trim s) = visible s"
  by (simp add: trim_def visible_rev visible_dropWhile)

lemma trim_last_visible: "trim s \<noteq> [] \<Longrightarrow> \<not> is_ws (last (trim s))"
proof -
  assume a: "trim s \<noteq> []"
  let ?d = "dropWhile is_ws (rev (dropWhile is_ws s))"
  from a have d: "?d \<noteq> []" by (simp add: trim_def)
  then have "\<not> is_ws (hd ?d)" by (rule hd_dropWhile)
  moreover have "last (trim s) = hd ?d" using d by (simp add: trim_def last_rev)
  ultimately show ?thesis by simp
qed

lemma last_visible_eq: "s \<noteq> [] \<Longrightarrow> \<not> is_ws (last s) \<Longrightarrow> visible s \<noteq> [] \<and> last (visible s) = last s"
proof (induction s)
  case Nil then show ?case by simp
next
  case (Cons c s)
  show ?case
  proof (cases "s = []")
    case True with Cons.prems show ?thesis by (simp add: visible_def)
  next
    case False
    with Cons have "visible s \<noteq> [] \<and> last (visible s) = last s" by simp
    with False show ?thesis by (simp add: visible_def)
  qed
qed

lemma trim_empty_iff: "trim s = [] \<longleftrightarrow> visible s = []"
proof
  assume "trim s = []"
  then have "visible (trim s) = []" by (simp add: visible_def)
  then show "visible s = []" by (simp add: visible_trim)
next
  assume v: "visible s = []"
  show "trim s = []"
  proof (rule ccontr)
    assume n: "trim s \<noteq> []"
    from last_visible_eq [OF n trim_last_visible [OF n]] have "visible (trim s) \<noteq> []" by simp
    with v show False by (simp add: visible_trim)
  qed
qed

lemma ends_terminal_trim: "ends_terminal (trim s) \<longleftrightarrow> (\<exists>c. end_mark s = Some (Some c))"
proof (cases "trim s = []")
  case True
  then show ?thesis by (simp add: ends_terminal_def end_mark_def trim_empty_iff)
next
  case False
  from last_visible_eq [OF False trim_last_visible [OF False]]
  have "visible s \<noteq> []" "last (visible s) = last (trim s)" by (simp_all add: visible_trim)
  with False show ?thesis by (simp add: ends_terminal_def end_mark_def)
qed

lemma end_mark_trim: "end_mark (trim s) = end_mark s"
  by (simp add: end_mark_def visible_trim)

lemma end_mark_last:
  "trim s \<noteq> [] \<Longrightarrow> end_mark s = Some (Some c) \<Longrightarrow> last (trim s) = c \<and> is_terminal c"
proof -
  assume n: "trim s \<noteq> []" and e: "end_mark s = Some (Some c)"
  from last_visible_eq [OF n trim_last_visible [OF n]]
  have "last (visible s) = last (trim s)" by (simp add: visible_trim)
  with e show ?thesis by (auto simp: end_mark_def split: if_splits)
qed

lemma end_mark_concat:
  assumes "\<forall>g \<in> set sg. end_mark (f g) = end_mark (h g)"
  shows "end_mark (concat (map f sg)) = end_mark (concat (map h sg))"
  using assms
proof (induction sg)
  case Nil then show ?case by simp
next
  case (Cons g sg)
  then have "end_mark (f g) = end_mark (h g)"
    and "end_mark (concat (map f sg)) = end_mark (concat (map h sg))" by simp_all
  then show ?case by (simp add: end_mark_append split: option.splits)
qed

lemma replace_cb_end_mark:
  assumes "\<And>b t n. M b t = Some n \<Longrightarrow> 0 < n \<Longrightarrow> n \<le> length t
             \<Longrightarrow> (\<forall>j. end_mark (f j b (take n t)) = end_mark (take n t))"
  shows "end_mark (replace_cb M f s) = end_mark s"
proof -
  have "\<forall>g \<in> set (segs M 0 None s).
          end_mark (case g of Keep c \<Rightarrow> [c] | Hit j b m \<Rightarrow> f j b m)
            = end_mark (case g of Keep c \<Rightarrow> [c] | Hit j b m \<Rightarrow> m)"
  proof
    fix g assume g: "g \<in> set (segs M 0 None s)"
    show "end_mark (case g of Keep c \<Rightarrow> [c] | Hit j b m \<Rightarrow> f j b m)
            = end_mark (case g of Keep c \<Rightarrow> [c] | Hit j b m \<Rightarrow> m)"
    proof (cases g)
      case (Keep c) then show ?thesis by simp
    next
      case (Hit j b m)
      with g have "Hit j b m \<in> set (segs M 0 None s)" by simp
      from segs_hit [OF this]
      have h: "m \<noteq> []" "M b (drop j s) = Some (length m)" "m = take (length m) (drop j s)"
        "j + length m \<le> length s" by auto
      have "length m \<le> length (drop j s)" using h(4) by simp
      from assms [OF h(2) _ this] h(1) h(3) have "end_mark (f j b m) = end_mark m" by auto
      with Hit show ?thesis by simp
    qed
  qed
  from end_mark_concat [OF this] show ?thesis
    by (simp add: replace_cb_def segs_orig)
qed

lemma toUpperCase_ws: "is_ws (toUpperCase c) = is_ws c"
  by (auto simp: toUpperCase_def lower_letters_def upper_letters_def is_ws_def)

lemma toUpperCase_terminal: "is_terminal (toUpperCase c) = is_terminal c"
  by (auto simp: toUpperCase_def lower_letters_def upper_letters_def is_terminal_def)

lemma word_visible: "is_word c \<Longrightarrow> \<not> is_ws c \<and> \<not> is_terminal c"
  by (auto simp: is_word_def lower_letters_def upper_letters_def is_ws_def is_terminal_def)

lemma end_mark_plain:
  "s \<noteq> [] \<Longrightarrow> \<not> is_ws (last s) \<Longrightarrow> \<not> is_terminal (last s) \<Longrightarrow> end_mark s = Some None"
  using last_visible_eq [of s] by (simp add: end_mark_def)

lemma end_mark_ws: "(\<forall>c \<in> set b. is_ws c) \<Longrightarrow> end_mark b = None"
  by (simp add: end_mark_def visible_ws)

lemma end_mark_single: "\<not> is_ws c \<Longrightarrow> end_mark [c] \<noteq> None"
  by (simp add: end_mark_def visible_def)

lemma lit_ci_last:
  assumes "lit_ci w t" and "w \<noteq> []"
  shows "take (length w) t \<noteq> [] \<and> toUpperCase (last (take (length w) t)) = toUpperCase (last w)"
proof -
  from assms have l: "length w \<le> length t" and m: "map toUpperCase (take (length w) t) = map toUpperCase w"
    by (simp_all add: lit_ci_def)
  from l assms(2) have n: "take (length w) t \<noteq> []" by auto
  have "toUpperCase (last (take (length w) t)) = last (map toUpperCase (take (length w) t))"
    using n by (simp add: last_map)
  also have "\<dots> = toUpperCase (last w)" using m assms(2) by (simp add: last_map)
  finally show ?thesis using n by simp
qed

lemma lit_ci_end_mark:
  assumes "lit_ci w t" and "w \<noteq> []" and "\<not> is_ws (last w)" and "\<not> is_terminal (last w)"
  shows "end_mark (take (length w) t) = Some None"
proof -
  from lit_ci_last [OF assms(1,2)]
  have n: "take (length w) t \<noteq> []"
    and u: "toUpperCase (last (take (length w) t)) = toUpperCase (last w)" by simp_all
  have "is_ws (last (take (length w) t)) = is_ws (last w)"
    using u toUpperCase_ws by metis
  moreover have "is_terminal (last (take (length w) t)) = is_terminal (last w)"
    using u toUpperCase_terminal by metis
  ultimately show ?thesis using n assms(3,4) by (simp add: end_mark_plain)
qed

lemma whole_word_end_mark:
  assumes "whole_word w b t = Some n" and "w \<noteq> []" and "\<not> is_ws (last w)" and "\<not> is_terminal (last w)"
  shows "end_mark (take n t) = Some None"
proof -
  from assms(1) have "n = length w" "lit_ci w t"
    by (auto simp: whole_word_def split: if_splits)
  then show ?thesis using lit_ci_end_mark [OF _ assms(2,3,4)] by simp
qed

lemma take_two_runs: "take (length a + length b + k) (a @ b @ c) = a @ b @ take k c"
  by simp

lemma repeated_word_parts:
  assumes "repeated_word b t = Some n"
  shows "\<exists>w ws r2. take n t = w @ ws @ take (length w) r2 \<and> w \<noteq> [] \<and> (\<forall>c \<in> set w. is_word c)
            \<and> ws \<noteq> [] \<and> (\<forall>c \<in> set ws. is_ws c) \<and> lit_ci w r2"
proof -
  define w where "w = takeWhile is_word t"
  define r1 where "r1 = dropWhile is_word t"
  define ws where "ws = takeWhile is_ws r1"
  define r2 where "r2 = dropWhile is_ws r1"
  from assms have c: "w \<noteq> []" "ws \<noteq> []" "lit_ci w r2" "n = 2 * length w + length ws"
    unfolding repeated_word_def w_def r1_def ws_def r2_def by (simp_all split: if_splits)
  have t1: "t = w @ r1" unfolding w_def r1_def by simp
  have t2: "r1 = ws @ r2" unfolding ws_def r2_def by simp
  have t: "t = w @ ws @ r2" using t1 t2 by simp
  have n': "n = length w + length ws + length w" using c(4) by simp
  have tk: "take n t = w @ ws @ take (length w) r2"
    unfolding t n' by (rule take_two_runs)
  have aw: "\<forall>c \<in> set w. is_word c" unfolding w_def by (auto dest: set_takeWhileD)
  have aws: "\<forall>c \<in> set ws. is_ws c" unfolding ws_def by (auto dest: set_takeWhileD)
  from tk c aw aws show ?thesis by blast
qed

lemma repeated_word_end_mark:
  assumes "repeated_word b t = Some n"
  shows "end_mark (take n t) = Some None \<and> end_mark (takeWhile is_word (take n t)) = Some None"
proof -
  from repeated_word_parts [OF assms] obtain w ws r2
    where tk: "take n t = w @ ws @ take (length w) r2" and w: "w \<noteq> []"
      and aw: "\<forall>c \<in> set w. is_word c" and ws: "ws \<noteq> []" and aws: "\<forall>c \<in> set ws. is_ws c"
      and l: "lit_ci w r2"
    by blast
  have lw: "is_word (last w)" using w aw by simp
  then have vw: "\<not> is_ws (last w)" "\<not> is_terminal (last w)" using word_visible by auto
  have e2: "end_mark (take (length w) r2) = Some None" using lit_ci_end_mark [OF l w vw] .
  have a: "end_mark (take n t) = Some None"
    unfolding tk by (simp only: end_mark_append e2 option.case)
  obtain x xs where x: "ws = x # xs" using ws by (cases ws) auto
  have "is_ws x" using aws x by simp
  then have "\<not> is_word x" using word_visible by blast
  then have "takeWhile is_word (w @ x # xs @ take (length w) r2) = w"
    using aw by (simp add: takeWhile_append2)
  then have "takeWhile is_word (take n t) = w" unfolding tk x by simp
  then have b: "end_mark (takeWhile is_word (take n t)) = Some None"
    using w vw by (simp add: end_mark_plain)
  from a b show ?thesis by simp
qed

lemma space_before_punct_end_mark:
  assumes "space_before_punct b t = Some n"
  shows "end_mark [last (take n t)] = end_mark (take n t)"
proof -
  let ?ws = "takeWhile is_ws t"
  from assms obtain c r where d: "dropWhile is_ws t = c # r" and c: "c = CHR '','' \<or> c = CHR ''.''"
    and n: "n = length ?ws + 1"
    by (auto simp: space_before_punct_def split: if_splits list.splits)
  have "t = ?ws @ c # r" using d by (metis takeWhile_dropWhile_id)
  then have "take n t = take n (?ws @ c # r)" by simp
  then have tk: "take n t = ?ws @ [c]" by (simp add: n)
  have v: "\<not> is_ws c" using c by (auto simp: is_ws_def)
  from end_mark_single [OF v] obtain y where "end_mark [c] = Some y" by auto
  then show ?thesis by (simp add: tk end_mark_append)
qed

lemma punct_multi_space_end_mark:
  assumes "punct_multi_space b t = Some n"
  shows "end_mark [hd (take n t), CHR '' ''] = end_mark (take n t)
       \<and> end_mark [hd t, CHR '' ''] = end_mark (take n t)"
proof -
  from assms obtain c r where t: "t = c # r" and c: "c = CHR '','' \<or> c = CHR ''.''"
    and n: "n = length (takeWhile is_ws r) + 1"
    by (auto simp: punct_multi_space_def split: if_splits list.splits)
  have "take (length (takeWhile is_ws r)) r = takeWhile is_ws r"
    by (rule takeWhile_eq_take [symmetric])
  then have tk: "take n t = [c] @ takeWhile is_ws r" by (simp add: t n)
  have w: "end_mark (takeWhile is_ws r) = None"
    by (rule end_mark_ws) (auto dest: set_takeWhileD)
  have w': "end_mark [CHR '' ''] = None" by (rule end_mark_ws) (simp add: is_ws_def)
  have "end_mark (take n t) = end_mark [c]" unfolding tk by (simp only: end_mark_append w option.case)
  moreover have "end_mark ([c] @ [CHR '' '']) = end_mark [c]" by (simp only: end_mark_append w' option.case)
  moreover have "hd t = c" by (simp add: t)
  moreover have "hd (take n t) = c" by (simp add: tk)
  ultimately show ?thesis by simp
qed

lemma fixCommonArtifacts_end_mark: "end_mark (fixCommonArtifacts s chs) = end_mark s"
proof -
  have g: "end_mark ''going to'' = Some None" "end_mark ''want to'' = Some None"
    "end_mark ''got to'' = Some None"
    by (simp_all add: end_mark_def visible_def is_ws_def is_terminal_def)
  have w: "\<not> is_ws CHR ''a''" "\<not> is_terminal CHR ''a''"
    by (simp_all add: is_ws_def is_terminal_def)
  have 1: "end_mark (replace_cb (whole_word ''gonna'') (\<lambda>i b m. ''going to'') x) = end_mark x" for x
    by (rule replace_cb_end_mark) (use whole_word_end_mark [of "''gonna''"] g w in auto)
  have 2: "end_mark (replace_cb (whole_word ''wanna'') (\<lambda>i b m. ''want to'') x) = end_mark x" for x
    by (rule replace_cb_end_mark) (use whole_word_end_mark [of "''wanna''"] g w in auto)
  have 3: "end_mark (replace_cb (whole_word ''gotta'') (\<lambda>i b m. ''got to'') x) = end_mark x" for x
    by (rule replace_cb_end_mark) (use whole_word_end_mark [of "''gotta''"] g w in auto)
  have 4: "end_mark (replace_cb repeated_word (\<lambda>i b m. takeWhile is_word m) x) = end_mark x" for x
    by (rule replace_cb_end_mark) (use repeated_word_end_mark in auto)
  have 5: "end_mark (replace_cb space_before_punct (\<lambda>i b m. [last m]) x) = end_mark x" for x
    by (rule replace_cb_end_mark) (use space_before_punct_end_mark in auto)
  have 6: "end_mark (replace_cb punct_multi_space (\<lambda>i b m. [hd m, CHR '' '']) x) = end_mark x" for x
    by (rule replace_cb_end_mark) (use punct_multi_space_end_mark in auto)
  show ?thesis by (simp add: fixCommonArtifacts_def Let_def 1 2 3 4 5 6)
qed

lemma add_ending_punctuation_end_mark:
  assumes "fst st \<noteq> []"
  shows "\<exists>c. end_mark (fst (add_ending_punctuation st)) = Some (Some c)"
proof (cases "ends_terminal (trim (fst st))")
  case True
  then show ?thesis using assms
    by (cases st) (auto simp: add_ending_punctuation_def ends_terminal_trim)
next
  case False
  have "end_mark (trim (fst st) @ ''.'') = Some (Some CHR ''.'')"
    by (simp add: end_mark_append end_mark_def visible_def is_ws_def is_terminal_def)
  then show ?thesis using assms False
    by (cases st) (simp add: add_ending_punctuation_def)
qed

lemma add_ending_punctuation_empty: "fst st = [] \<Longrightarrow> fst (add_ending_punctuation st) = []"
  by (cases st) (simp add: add_ending_punctuation_def)


text \<open>
  C6. A non-empty corrected text ends in \<open>.\<close>, \<open>!\<close> or \<open>?\<close>. When the result
  of steps 1 to 6, trimmed, does not end in one of them, step 7 makes it the trimmed
  result followed by a period and records the punctuation Change as the last Change,
  positioned at the length of the result before trimming.
\<close>

theorem ending_punctuation:
  assumes "corrected (applyCorrections text similarities) \<noteq> []"
  shows "last (corrected (applyCorrections text similarities)) \<in> {CHR ''.'', CHR ''!'', CHR ''?''}
       \<and> (\<not> ends_terminal (trim (fst (before_ending_punctuation text))) \<longrightarrow>
            fst (add_ending_punctuation (before_ending_punctuation text))
              = trim (fst (before_ending_punctuation text)) @ ''.''
            \<and> changes (applyCorrections text similarities)
              = snd (before_ending_punctuation text)
                  @ [\<lparr>ctype = Punctuation, description = ''Added ending period'',
                       position = length (fst (before_ending_punctuation text))\<rparr>])"
proof -
  let ?st6 = "before_ending_punctuation text"
  let ?st7 = "add_ending_punctuation ?st6"
  let ?r8 = "fixCommonArtifacts (fst ?st7) (snd ?st7)"
  have cor: "corrected (applyCorrections text similarities) = trim ?r8"
    and chg: "changes (applyCorrections text similarities) = snd ?st7"
    by (simp_all add: applyCorrections_def Let_def)
  have e8: "end_mark ?r8 = end_mark (fst ?st7)" by (rule fixCommonArtifacts_end_mark)
  have ne: "fst ?st6 \<noteq> []"
  proof
    assume "fst ?st6 = []"
    then have "fst ?st7 = []" by (rule add_ending_punctuation_empty)
    then have "end_mark ?r8 = None" using e8 by (simp add: end_mark_def visible_def)
    then have "visible ?r8 = []" by (simp add: end_mark_def split: if_splits)
    then have "trim ?r8 = []" by (simp add: trim_empty_iff)
    with assms cor show False by simp
  qed
  from add_ending_punctuation_end_mark [OF ne] obtain c where "end_mark (fst ?st7) = Some (Some c)"
    by blast
  then have "end_mark ?r8 = Some (Some c)" using e8 by simp
  moreover have "trim ?r8 \<noteq> []" using assms cor by simp
  ultimately have "last (trim ?r8) = c \<and> is_terminal c" by (rule end_mark_last [rotated])
  then have a: "last (corrected (applyCorrections text similarities)) \<in> {CHR ''.'', CHR ''!'', CHR ''?''}"
    using cor by (auto simp: is_terminal_def)
  have b: "\<not> ends_terminal (trim (fst ?st6)) \<longrightarrow>
            fst ?st7 = trim (fst ?st6) @ ''.''
            \<and> snd ?st7 = snd ?st6 @ [\<lparr>ctype = Punctuation, description = ''Added ending period'',
                                       position = length (fst ?st6)\<rparr>]"
    using ne by (cases ?st6) (simp add: add_ending_punctuation_def)
  from a b chg show ?thesis by simp
qed


theorem ending_punctuation_witness:
  "corrected (applyCorrections ''hi'' []) = ''Hi.''
   \<and> \<not> ends_terminal (trim (fst (before_ending_punctuation ''hi'')))
   \<and> last (corrected (applyCorrections ''hi'' [])) \<in> {CHR ''.'', CHR ''!'', CHR ''?''}
   \<and> changes (applyCorrections ''hi'' [])
       = snd (before_ending_punctuation ''hi'')
           @ [\<lparr>ctype = Punctuation, description = ''Added ending period'',
                position = length (fst (before_ending_punctuation ''hi''))\<rparr>]"
proof -
  have e: "corrected (applyCorrections ''hi'' []) = ''Hi.''" by code_simp
  have n: "\<not> ends_terminal (trim (fst (before_ending_punctuation ''hi'')))" by code_simp
  have ne: "corrected (applyCorrections ''hi'' []) \<noteq> []" unfolding e by simp
  from ending_punctuation [OF ne] e n show ?thesis by blast
qed

end
